theory Spec2Isabelle
  imports Complex_Main "HOL-Library.Multiset" "HOL-Library.Log_Nat"
begin

unbundle bit_operations_syntax

section \<open>Edge weights\<close>

text \<open>
  The solver reads edge weights from a dictionary and uses \<^verbatim>\<open>float('inf')\<close> for a pair
  that is absent. A weight is modelled as an exact real number or the value \<open>PInf\<close>.
  Addition and comparison follow Python's rules for finite numbers and positive infinity,
  with the sum of two finite numbers taken exactly; the rounding of a sum of doubles is
  modelled in the last section, for the tour cost.
\<close>

datatype weight = Fin real | PInf

instantiation weight :: "{zero, plus, linorder}"
begin

definition zero_weight :: weight where
  "zero_weight = Fin 0"

fun plus_weight :: "weight \<Rightarrow> weight \<Rightarrow> weight" where
  "plus_weight (Fin a) (Fin b) = Fin (a + b)"
| "plus_weight (Fin a) PInf = PInf"
| "plus_weight PInf w = PInf"

fun less_eq_weight :: "weight \<Rightarrow> weight \<Rightarrow> bool" where
  "less_eq_weight (Fin a) (Fin b) = (a \<le> b)"
| "less_eq_weight (Fin a) PInf = True"
| "less_eq_weight PInf (Fin b) = False"
| "less_eq_weight PInf PInf = True"

fun less_weight :: "weight \<Rightarrow> weight \<Rightarrow> bool" where
  "less_weight (Fin a) (Fin b) = (a < b)"
| "less_weight (Fin a) PInf = True"
| "less_weight PInf w = False"

instance
proof
  fix x y z :: weight
  show "(x < y) = (x \<le> y \<and> \<not> y \<le> x)"
    by (cases x; cases y) auto
  show "x \<le> x"
    by (cases x) auto
  show "x \<le> y \<Longrightarrow> y \<le> z \<Longrightarrow> x \<le> z"
    by (cases x; cases y; cases z) auto
  show "x \<le> y \<Longrightarrow> y \<le> x \<Longrightarrow> x = y"
    by (cases x; cases y) auto
  show "x \<le> y \<or> y \<le> x"
    by (cases x; cases y) auto
qed

end

instance weight :: comm_monoid_add
proof
  fix a b c :: weight
  show "a + b + c = a + (b + c)"
    by (cases a; cases b; cases c) auto
  show "a + b = b + a"
    by (cases a; cases b) auto
  show "0 + a = a"
    by (cases a) (auto simp: zero_weight_def)
qed

instance weight :: ordered_ab_semigroup_add
proof
  fix a b c :: weight
  show "a \<le> b \<Longrightarrow> c + a \<le> c + b"
    by (cases a; cases b; cases c) auto
qed

section \<open>Tour cost\<close>

type_synonym 'c edges = "('c \<times> 'c) \<rightharpoonup> weight"

text \<open>\<^verbatim>\<open>get_distance\<close>: dictionary lookup with default \<^verbatim>\<open>float('inf')\<close>.\<close>

definition get_distance :: "'c edges \<Rightarrow> 'c \<Rightarrow> 'c \<Rightarrow> weight" where
  "get_distance edges city1 city2 =
     (case edges (city1, city2) of None \<Rightarrow> PInf | Some w \<Rightarrow> w)"

text \<open>
  \<^verbatim>\<open>calculate_path_cost\<close>: the loop over \<^verbatim>\<open>range(len(path))\<close> adds the distance
  from \<^verbatim>\<open>path[i]\<close> to \<^verbatim>\<open>path[(i + 1) % len(path)]\<close> to an accumulator that starts at 0.
\<close>

definition calculate_path_cost :: "'c edges \<Rightarrow> 'c list \<Rightarrow> weight" where
  "calculate_path_cost edges path =
     fold (\<lambda>i cost. cost + get_distance edges (path ! i) (path ! ((i + 1) mod length path)))
       [0..<length path] 0"

text \<open>
  Auxiliary: the cost of the open path, without the closing edge from the last city back
  to the first.
\<close>

fun chain :: "'c edges \<Rightarrow> 'c list \<Rightarrow> weight" where
  "chain E [] = 0"
| "chain E [x] = 0"
| "chain E (x # y # ys) = get_distance E x y + chain E (y # ys)"

lemma fold_add_sum_list:
  "fold (\<lambda>i (c::weight). c + f i) xs a = a + sum_list (map f xs)"
  by (induction xs arbitrary: a) (simp_all add: add.assoc)

lemma chain_sum:
  "chain E p = sum_list (map (\<lambda>i. get_distance E (p ! i) (p ! Suc i)) [0..<length p - 1])"
proof (induction E p rule: chain.induct)
  case (3 E x y ys)
  have "[0..<Suc (length ys)] = 0 # map Suc [0..<length ys]"
    by (simp add: upt_conv_Cons map_Suc_upt del: upt_Suc)
  then show ?case using 3 by (simp add: comp_def del: upt_Suc)
qed simp_all

lemma cost_chain:
  assumes "p \<noteq> []"
  shows "calculate_path_cost E p = chain E p + get_distance E (last p) (hd p)"
proof -
  obtain m where m: "length p = Suc m" using assms by (cases p) auto
  have a: "(\<Sum>i\<leftarrow>[0..<m]. get_distance E (p ! i) (p ! (Suc i mod Suc m)))
      = (\<Sum>i\<leftarrow>[0..<m]. get_distance E (p ! i) (p ! Suc i))"
    by (intro arg_cong[where f=sum_list] map_cong) auto
  have l: "last p = p ! m" using m assms by (simp add: last_conv_nth)
  have h: "hd p = p ! 0" using assms by (simp add: hd_conv_nth)
  show ?thesis
    unfolding calculate_path_cost_def fold_add_sum_list chain_sum m
    by (simp add: l h a)
qed

lemma chain_append:
  "chain E (xs @ ys) = chain E xs + chain E ys
     + (if xs = [] \<or> ys = [] then 0 else get_distance E (last xs) (hd ys))"
proof (induction E xs rule: chain.induct)
  case (2 E x)
  then show ?case by (cases ys) (simp_all add: add.commute)
qed (simp_all add: ac_simps)





text \<open>Three cities with a symmetric, complete edge table, used as a concrete instance.\<close>

definition triangle_edges :: "nat edges" where
  "triangle_edges = map_of
     [((0, 1), Fin 1), ((1, 0), Fin 1), ((1, 2), Fin 2), ((2, 1), Fin 2),
      ((0, 2), Fin 4), ((2, 0), Fin 4)]"

section \<open>Nearest neighbour\<close>

text \<open>Python exceptions that the modelled functions can raise.\<close>

datatype error = KeyError | TypeError | AttributeError | ValueError | ZeroDivisionError

text \<open>
  The body of the inner loop \<^verbatim>\<open>for city in unvisited\<close>: the pair is
  \<^verbatim>\<open>(nearest, min_dist)\<close>, which starts at \<^verbatim>\<open>(None, float('inf'))\<close>. A city replaces
  the candidate only when it is strictly closer, so a city at infinite distance is never
  chosen and the first city met wins a tie.
\<close>

definition nearest_step :: "'c edges \<Rightarrow> 'c \<Rightarrow> 'c \<Rightarrow> 'c option \<times> weight \<Rightarrow> 'c option \<times> weight" where
  "nearest_step edges current city acc =
     (case acc of (nearest, min_dist) \<Rightarrow>
        let dist = get_distance edges current city
        in if dist < min_dist then (Some city, dist) else (nearest, min_dist))"

definition find_nearest :: "'c edges \<Rightarrow> 'c \<Rightarrow> 'c list \<Rightarrow> 'c option" where
  "find_nearest edges current unvisited =
     fst (fold (nearest_step edges current) unvisited (None, PInf))"

lemma PInf_top [simp]: "w \<le> PInf"
  by (cases w) simp_all

lemma less_PInf_iff: "w < PInf \<longleftrightarrow> w \<noteq> PInf"
  by (cases w) simp_all

lemma not_less_PInf_iff [simp]: "\<not> w < PInf \<longleftrightarrow> w = PInf"
  by (cases w) simp_all

lemma nearest_step_simp:
  "nearest_step E cur x (a, m) =
     (if get_distance E cur x < m then (Some x, get_distance E cur x) else (a, m))"
  by (simp add: nearest_step_def)

lemma fold_nearest_step:
  assumes "fold (nearest_step E cur) u (a, m) = (r, m')"
    and "a = None \<longleftrightarrow> m = PInf"
  shows "(r = None \<longleftrightarrow> m' = PInf) \<and> m' \<le> m
       \<and> (\<forall>c\<in>set u. m' \<le> get_distance E cur c)
       \<and> ((r = a \<and> m' = m) \<or> (\<exists>c\<in>set u. r = Some c \<and> m' = get_distance E cur c))"
  using assms
proof (induction u arbitrary: a m)
  case Nil
  then show ?case by simp
next
  case (Cons x u)
  show ?case
  proof (cases "get_distance E cur x < m")
    case True
    then have "fold (nearest_step E cur) u (Some x, get_distance E cur x) = (r, m')"
      using Cons.prems(1) by (simp add: nearest_step_simp)
    moreover have "(Some x = None) \<longleftrightarrow> get_distance E cur x = PInf"
      using True by (auto)
    ultimately have "(r = None \<longleftrightarrow> m' = PInf) \<and> m' \<le> get_distance E cur x
       \<and> (\<forall>c\<in>set u. m' \<le> get_distance E cur c)
       \<and> ((r = Some x \<and> m' = get_distance E cur x) \<or> (\<exists>c\<in>set u. r = Some c \<and> m' = get_distance E cur c))"
      using Cons.IH by blast
    then show ?thesis using True by auto
  next
    case False
    then have "fold (nearest_step E cur) u (a, m) = (r, m')"
      using Cons.prems(1) by (simp add: nearest_step_simp)
    then have "(r = None \<longleftrightarrow> m' = PInf) \<and> m' \<le> m
       \<and> (\<forall>c\<in>set u. m' \<le> get_distance E cur c)
       \<and> ((r = a \<and> m' = m) \<or> (\<exists>c\<in>set u. r = Some c \<and> m' = get_distance E cur c))"
      using Cons.IH Cons.prems(2) by blast
    then show ?thesis using False by auto
  qed
qed

lemma find_nearest_None:
  "find_nearest E cur u = None \<longleftrightarrow> (\<forall>c\<in>set u. get_distance E cur c = PInf)"
proof -
  obtain r m' where f: "fold (nearest_step E cur) u (None, PInf) = (r, m')"
    by (cases "fold (nearest_step E cur) u (None, PInf)")
  from fold_nearest_step [OF f] have
    a: "r = None \<longleftrightarrow> m' = PInf" and b: "\<forall>c\<in>set u. m' \<le> get_distance E cur c"
    and c: "r = None \<or> (\<exists>c\<in>set u. r = Some c \<and> m' = get_distance E cur c)"
    by auto
  show ?thesis
  proof
    assume "find_nearest E cur u = None"
    then have "m' = PInf" using f a by (simp add: find_nearest_def)
    then show "\<forall>c\<in>set u. get_distance E cur c = PInf"
      using b by (metis PInf_top antisym)
  next
    assume "\<forall>c\<in>set u. get_distance E cur c = PInf"
    then have "r = None" using a c by auto
    then show "find_nearest E cur u = None" using f by (simp add: find_nearest_def)
  qed
qed

lemma find_nearest_Some:
  assumes "find_nearest E cur u = Some c"
  shows "c \<in> set u \<and> get_distance E cur c \<noteq> PInf
       \<and> (\<forall>c'\<in>set u. get_distance E cur c \<le> get_distance E cur c')"
proof -
  obtain r m' where f: "fold (nearest_step E cur) u (None, PInf) = (r, m')"
    by (cases "fold (nearest_step E cur) u (None, PInf)")
  from fold_nearest_step [OF f] have
    a: "r = None \<longleftrightarrow> m' = PInf" and b: "\<forall>c\<in>set u. m' \<le> get_distance E cur c"
    and c: "r = None \<or> (\<exists>c\<in>set u. r = Some c \<and> m' = get_distance E cur c)"
    by auto
  have "r = Some c" using assms f by (simp add: find_nearest_def)
  then show ?thesis using a b c by auto
qed

text \<open>
  The loop \<^verbatim>\<open>while unvisited\<close>. The Python set \<^verbatim>\<open>unvisited\<close> is modelled by the list
  of its elements in the order in which the interpreter iterates over them; removing an
  element leaves the order of the others unchanged. The loop stops when the set is empty
  or when no city was chosen (\<^verbatim>\<open>nearest is None\<close>).
\<close>

function nn_loop :: "'c edges \<Rightarrow> 'c list \<Rightarrow> 'c \<Rightarrow> 'c list \<Rightarrow> 'c list" where
  "nn_loop edges path current unvisited =
     (if unvisited = [] then path
      else case find_nearest edges current unvisited of
             None \<Rightarrow> path
           | Some nearest \<Rightarrow>
               nn_loop edges (path @ [nearest]) nearest (remove1 nearest unvisited))"
  by pat_completeness auto
termination
proof (relation "measure (\<lambda>(edges, path, current, unvisited). length unvisited)")
  show "wf (measure (\<lambda>(edges, path, current, unvisited). length unvisited))"
    by simp
next
  fix edges :: "'c edges" and path current unvisited nearest
  assume "unvisited \<noteq> []" "find_nearest edges current unvisited = Some nearest"
  then have "nearest \<in> set unvisited"
    using find_nearest_Some by fastforce
  then show "((edges, path @ [nearest], nearest, remove1 nearest unvisited),
              (edges, path, current, unvisited))
             \<in> measure (\<lambda>(edges, path, current, unvisited). length unvisited)"
    using \<open>unvisited \<noteq> []\<close> by (simp add: length_remove1)
qed

declare nn_loop.simps [simp del]

text \<open>
  \<^verbatim>\<open>nearest_neighbor(start_city=None)\<close>. The argument \<open>set_iter\<close> is the iteration order
  of \<^verbatim>\<open>set(self.cities)\<close>, which Python does not specify: a duplicate-free enumeration
  of the cities. \<^verbatim>\<open>unvisited.remove(current)\<close> raises \<^verbatim>\<open>KeyError\<close> when the start city
  is not among the cities.
\<close>

definition nearest_neighbor ::
  "'c list \<Rightarrow> 'c edges \<Rightarrow> 'c list \<Rightarrow> 'c option \<Rightarrow> error + ('c list \<times> weight)" where
  "nearest_neighbor cities edges set_iter start_city =
     (if cities = [] then Inr ([], 0)
      else
        let start = (case start_city of None \<Rightarrow> cities ! 0 | Some c \<Rightarrow> c)
        in if start \<notin> set set_iter then Inl KeyError
           else
             let path = nn_loop edges [start] start (remove1 start set_iter)
             in Inr (path, calculate_path_cost edges path))"

lemma nn_loop_props:
  assumes "path \<noteq> []" "last path = cur" "distinct (path @ u)"
  shows "distinct (nn_loop E path cur u)
       \<and> set path \<subseteq> set (nn_loop E path cur u)
       \<and> set (nn_loop E path cur u) \<subseteq> set path \<union> set u
       \<and> hd (nn_loop E path cur u) = hd path
       \<and> (\<forall>c\<in>set u - set (nn_loop E path cur u).
             get_distance E (last (nn_loop E path cur u)) c = PInf)"
  using assms
proof (induction E path cur u rule: nn_loop.induct)
  case (1 E path cur u)
  show ?case
  proof (cases "u = []")
    case True
    then show ?thesis using 1 by (simp add: nn_loop.simps)
  next
    case False
    show ?thesis
    proof (cases "find_nearest E cur u")
      case None
      then have "nn_loop E path cur u = path"
        using False by (simp add: nn_loop.simps)
      then show ?thesis
        using None "1.prems" by (auto simp: find_nearest_None)
    next
      case (Some c)
      then have c: "c \<in> set u" using find_nearest_Some by fastforce
      have eq: "nn_loop E path cur u = nn_loop E (path @ [c]) c (remove1 c u)"
        using False Some by (subst nn_loop.simps) simp
      have d: "distinct ((path @ [c]) @ remove1 c u)"
        using "1.prems"(3) c by (auto simp: distinct_remove1 set_remove1_eq)
      have s: "set (remove1 c u) = set u - {c}"
        using "1.prems"(3) by (simp add: set_remove1_eq)
      note IH = "1.IH" [OF False Some _ _ d, simplified]
      show ?thesis
        unfolding eq using IH "1.prems"(1) s c by auto
    qed
  qed
qed

lemma nn_default_props:
  assumes "cities \<noteq> []" and "distinct set_iter" and "set set_iter = set cities"
  shows "\<exists>path. nearest_neighbor cities edges set_iter None
                  = Inr (path, calculate_path_cost edges path)
           \<and> path \<noteq> [] \<and> hd path = cities ! 0 \<and> distinct path
           \<and> set path \<subseteq> set cities
           \<and> (\<forall>c\<in>set cities - set path. get_distance edges (last path) c = PInf)"
proof -
  define start where "start = cities ! 0"
  define path where "path = nn_loop edges [start] start (remove1 start set_iter)"
  have st: "start \<in> set set_iter"
    using assms(1,3) by (simp add: start_def)
  have d: "distinct ([start] @ remove1 start set_iter)"
    using assms(2) by (simp add: set_remove1_eq distinct_remove1)
  have s: "set (remove1 start set_iter) = set cities - {start}"
    using assms(2,3) by (simp add: set_remove1_eq)
  from nn_loop_props [of "[start]" start "remove1 start set_iter" edges, OF _ _ d]
  have p: "distinct path" "start \<in> set path" "set path \<subseteq> insert start (set cities - {start})"
    "hd path = start"
    "\<forall>c\<in>set cities - {start} - set path. get_distance edges (last path) c = PInf"
    by (simp_all add: path_def s)
  have sub: "set path \<subseteq> set cities" using p(3) st assms(3) by auto
  have ne: "path \<noteq> []" using p(2) by auto
  have om: "\<forall>c\<in>set cities - set path. get_distance edges (last path) c = PInf"
    using p(5) p(2) by auto
  have "nearest_neighbor cities edges set_iter None = Inr (path, calculate_path_cost edges path)"
    using assms(1) st by (simp add: nearest_neighbor_def path_def start_def Let_def)
  then show ?thesis
    using ne p(4) p(1) sub om start_def by blast
qed

lemma nn_loop_greedy:
  assumes "path \<noteq> []" "last path = cur"
  shows "(\<exists>s. nn_loop E path cur u = path @ s)
       \<and> (\<forall>i. length path - 1 \<le> i \<and> Suc i < length (nn_loop E path cur u) \<longrightarrow>
            get_distance E (nn_loop E path cur u ! i) (nn_loop E path cur u ! Suc i) \<noteq> PInf
            \<and> (\<forall>c\<in>set u - set (take (Suc i) (nn_loop E path cur u)).
                  get_distance E (nn_loop E path cur u ! i) (nn_loop E path cur u ! Suc i)
                    \<le> get_distance E (nn_loop E path cur u ! i) c))"
  using assms
proof (induction E path cur u rule: nn_loop.induct)
  case (1 E path cur u)
  show ?case
  proof (cases "u = [] \<or> find_nearest E cur u = None")
    case True
    then have "nn_loop E path cur u = path"
      by (subst nn_loop.simps) auto
    then show ?thesis using "1.prems"(1) by (cases path) auto
  next
    case False
    then obtain c where ne: "u \<noteq> []" and Some: "find_nearest E cur u = Some c"
      by auto
    let ?r = "nn_loop E (path @ [c]) c (remove1 c u)"
    have eq: "nn_loop E path cur u = ?r"
      using ne Some by (subst nn_loop.simps) simp
    note fn = find_nearest_Some [OF Some]
    have ih: "(\<exists>s. ?r = (path @ [c]) @ s)
       \<and> (\<forall>i. length (path @ [c]) - 1 \<le> i \<and> Suc i < length ?r \<longrightarrow>
            get_distance E (?r ! i) (?r ! Suc i) \<noteq> PInf
            \<and> (\<forall>c'\<in>set (remove1 c u) - set (take (Suc i) ?r).
                  get_distance E (?r ! i) (?r ! Suc i) \<le> get_distance E (?r ! i) c'))"
      by (rule "1.IH" [OF ne Some]) simp_all
    then obtain s where s: "?r = (path @ [c]) @ s" by blast
    have pre: "\<exists>s'. ?r = path @ s'" using s by simp
    have step: "get_distance E (?r ! i) (?r ! Suc i) \<noteq> PInf
            \<and> (\<forall>c'\<in>set u - set (take (Suc i) ?r).
                  get_distance E (?r ! i) (?r ! Suc i) \<le> get_distance E (?r ! i) c')"
      if i: "length path - 1 \<le> i" "Suc i < length ?r" for i
    proof (cases "i = length path - 1")
      case True
      have li: "Suc i = length path" using True "1.prems"(1) by (cases path) auto
      have ri: "?r ! i = cur"
        using s True "1.prems" by (simp add: nth_append last_conv_nth)
      have rs: "?r ! Suc i = c"
        using s li by (simp add: nth_append)
      show ?thesis
        unfolding ri rs using fn by auto
    next
      case False
      then have ge: "length path \<le> i" using i(1) by simp
      have cin: "c \<in> set (take (Suc i) ?r)"
      proof -
        have l: "length path < length (take (Suc i) ?r)" using ge i(2) by simp
        have "take (Suc i) ?r ! length path = c" using s ge by (simp add: nth_append)
        then show ?thesis using l nth_mem by metis
      qed
      have sub: "set u - set (take (Suc i) ?r) \<subseteq> set (remove1 c u) - set (take (Suc i) ?r)"
      proof
        fix x assume x: "x \<in> set u - set (take (Suc i) ?r)"
        then have "x \<noteq> c" using cin by auto
        then have "x \<in> set (remove1 c u)" using x by (simp add: in_set_remove1)
        then show "x \<in> set (remove1 c u) - set (take (Suc i) ?r)" using x by simp
      qed
      have "length (path @ [c]) - 1 \<le> i" using ge by simp
      then show ?thesis
        using ih i(2) sub by blast
    qed
    show ?thesis
      unfolding eq using pre step by blast
  qed
qed

text \<open>
  \<open>stuck edges cities path i\<close>: after the first \<open>i + 1\<close> cities of the path some city is
  still unvisited, and every unvisited city is at infinite distance from the current city
  \<open>path ! i\<close>.
\<close>

definition stuck :: "'c edges \<Rightarrow> 'c list \<Rightarrow> 'c list \<Rightarrow> nat \<Rightarrow> bool" where
  "stuck edges cities path i \<longleftrightarrow>
     set cities - set (take (Suc i) path) \<noteq> {} \<and>
     (\<forall>c\<in>set cities - set (take (Suc i) path). get_distance edges (path ! i) c = PInf)"

lemma nn_default_greedy:
  assumes "cities \<noteq> []" and "distinct set_iter" and "set set_iter = set cities"
    and "nearest_neighbor cities edges set_iter None = Inr (path, cost)"
  shows "\<forall>i. Suc i < length path \<longrightarrow>
           get_distance edges (path ! i) (path ! Suc i) \<noteq> PInf
           \<and> (\<forall>c\<in>set cities - set (take (Suc i) path).
                 get_distance edges (path ! i) (path ! Suc i) \<le> get_distance edges (path ! i) c)"
proof (intro allI impI)
  fix i assume i: "Suc i < length path"
  define start where "start = cities ! 0"
  have st: "start \<in> set set_iter"
    using assms(1,3) by (simp add: start_def)
  have p: "path = nn_loop edges [start] start (remove1 start set_iter)"
    using assms(1,4) st by (simp add: nearest_neighbor_def start_def Let_def)
  note g = nn_loop_greedy [of "[start]" start edges "remove1 start set_iter", folded p]
  have g1: "\<exists>s. path = [start] @ s" using g by simp
  then have s0: "start \<in> set (take (Suc i) path)" by auto
  have g2: "get_distance edges (path ! i) (path ! Suc i) \<noteq> PInf
       \<and> (\<forall>c\<in>set (remove1 start set_iter) - set (take (Suc i) path).
             get_distance edges (path ! i) (path ! Suc i) \<le> get_distance edges (path ! i) c)"
    using g i by simp
  have "set cities - set (take (Suc i) path)
      \<subseteq> set (remove1 start set_iter) - set (take (Suc i) path)"
  proof
    fix x assume x: "x \<in> set cities - set (take (Suc i) path)"
    then have "x \<noteq> start" using s0 by auto
    then have "x \<in> set (remove1 start set_iter)"
      using x assms(3) by (simp add: in_set_remove1)
    then show "x \<in> set (remove1 start set_iter) - set (take (Suc i) path)" using x by simp
  qed
  then show "get_distance edges (path ! i) (path ! Suc i) \<noteq> PInf
           \<and> (\<forall>c\<in>set cities - set (take (Suc i) path).
                 get_distance edges (path ! i) (path ! Suc i) \<le> get_distance edges (path ! i) c)"
    using g2 by blast
qed

text \<open>Three cities where city 0 is joined to 1 and to 2, and 1 and 2 are not joined.\<close>

definition fork_edges :: "nat edges" where
  "fork_edges = map_of
     [((0, 1), Fin 1), ((1, 0), Fin 1), ((0, 2), Fin 2), ((2, 0), Fin 2)]"

lemma nn_eval_simps:
  "nn_loop E path cur [] = path"
  "nn_loop E path cur (u # us) =
     (case find_nearest E cur (u # us) of
        None \<Rightarrow> path
      | Some nearest \<Rightarrow> nn_loop E (path @ [nearest]) nearest (remove1 nearest (u # us)))"
  by (simp_all add: nn_loop.simps)

text \<open>
  C2, as stated, fails: with edges 0-1 (weight 1) and 0-2 (weight 2) and no edge between
  1 and 2, the search goes from 0 to 1 and stops there, since city 2 is at infinite
  distance from the current city 1. The omitted city 2 is nevertheless at finite distance
  from the visited city 0.
\<close>

theorem nearest_neighbor_omits_reachable_city:
  "nearest_neighbor [0, 1, 2] fork_edges [0, 1, 2] None = Inr ([0, 1], Fin 2)
   \<and> get_distance fork_edges 0 2 = Fin 2"
  by (simp add: nearest_neighbor_def nn_eval_simps find_nearest_def nearest_step_def
      get_distance_def fork_edges_def cost_chain)

text \<open>
  C2, amended. For a non-empty list of pairwise distinct cities and the default start,
  \<^verbatim>\<open>nearest_neighbor\<close> returns a duplicate-free tour of input cities that begins with the
  first city, together with the cost of that tour. Every step of the tour goes to an
  unvisited city at finite distance, and no unvisited city is closer to the current city.
  The length of the tour equals the number of input cities, unless at some step every
  remaining unvisited city is at infinite distance from the current city: then the search
  stops at that step and returns a strictly shorter partial tour, and every omitted city
  is at infinite distance from the last city of the tour.
\<close>

theorem nearest_neighbor_tour:
  assumes "cities \<noteq> []" and "distinct cities"
    and "distinct set_iter" and "set set_iter = set cities"
  shows "\<exists>path. nearest_neighbor cities edges set_iter None
                  = Inr (path, calculate_path_cost edges path)
           \<and> path \<noteq> [] \<and> hd path = cities ! 0 \<and> distinct path
           \<and> set path \<subseteq> set cities
           \<and> (\<forall>i. Suc i < length path \<longrightarrow>
                 get_distance edges (path ! i) (path ! Suc i) \<noteq> PInf
                 \<and> (\<forall>c\<in>set cities - set (take (Suc i) path).
                       get_distance edges (path ! i) (path ! Suc i)
                         \<le> get_distance edges (path ! i) c))
           \<and> (\<forall>i<length path. stuck edges cities path i \<longrightarrow> Suc i = length path)
           \<and> (if \<exists>i<length path. stuck edges cities path i
               then length path < length cities
                    \<and> stuck edges cities path (length path - 1)
               else length path = length cities)"
proof -
  from nn_default_props [OF assms(1,3,4), of edges]
  obtain path where r: "nearest_neighbor cities edges set_iter None
        = Inr (path, calculate_path_cost edges path)"
    and ne: "path \<noteq> []" and hd: "hd path = cities ! 0" and d: "distinct path"
    and sub: "set path \<subseteq> set cities"
    and om: "\<forall>c\<in>set cities - set path. get_distance edges (last path) c = PInf"
    by blast
  note gr = nn_default_greedy [OF assms(1,3,4) r]
  have card: "card (set path) = length path" "card (set cities) = length cities"
    using d assms(2) by (simp_all add: distinct_card)
  have le: "length path \<le> length cities"
    using card card_mono [OF _ sub] by simp
  have iff: "length path = length cities \<longleftrightarrow> set path = set cities"
    using card card_subset_eq [OF _ sub] by auto
  have lst: "path ! (length path - 1) = last path"
    using ne by (simp add: last_conv_nth)
  have tk: "take (Suc (length path - 1)) path = path"
    using ne by simp
  have only_last: "Suc i = length path" if i: "i < length path" and s: "stuck edges cities path i" for i
  proof (rule ccontr)
    assume "Suc i \<noteq> length path"
    then have si: "Suc i < length path" using i by simp
    have "path ! Suc i \<notin> set (take (Suc i) path)"
    proof
      assume "path ! Suc i \<in> set (take (Suc i) path)"
      then obtain j where j: "j < Suc i" "take (Suc i) path ! j = path ! Suc i"
        by (auto simp: in_set_conv_nth)
      then have "path ! j = path ! Suc i" by simp
      then show False
        using d j(1) si by (auto simp: distinct_conv_nth)
    qed
    moreover have "path ! Suc i \<in> set cities" using sub si by auto
    ultimately have "get_distance edges (path ! i) (path ! Suc i) = PInf"
      using s by (simp add: stuck_def)
    then show False using gr si by blast
  qed
  have last_stuck: "stuck edges cities path (length path - 1) \<longleftrightarrow> set path \<noteq> set cities"
    unfolding stuck_def tk lst using om sub by auto
  have some: "(\<exists>i<length path. stuck edges cities path i) \<longleftrightarrow> set path \<noteq> set cities"
  proof
    assume "\<exists>i<length path. stuck edges cities path i"
    then obtain i where i: "i < length path" "stuck edges cities path i" by blast
    then have "Suc i = length path" by (rule only_last)
    then have "i = length path - 1" by simp
    then show "set path \<noteq> set cities" using i(2) last_stuck by simp
  next
    assume "set path \<noteq> set cities"
    then have "stuck edges cities path (length path - 1)" using last_stuck by simp
    moreover have "length path - 1 < length path" using ne by simp
    ultimately show "\<exists>i<length path. stuck edges cities path i" by blast
  qed
  have fin: "if \<exists>i<length path. stuck edges cities path i
       then length path < length cities \<and> stuck edges cities path (length path - 1)
       else length path = length cities"
    using some last_stuck iff le by auto
  show ?thesis
    using r ne hd d sub gr only_last fin by blast
qed

theorem nearest_neighbor_tour_witness:
  "nearest_neighbor [0, 1, 2] triangle_edges [2, 1, 0] None = Inr ([0, 1, 2], Fin 7)
   \<and> nearest_neighbor [0, 1, 2] fork_edges [2, 1, 0] None = Inr ([0, 1], Fin 2)
   \<and> get_distance fork_edges 1 2 = PInf"
proof -
  have a: "nearest_neighbor [0, 1, 2] triangle_edges [2, 1, 0] None = Inr ([0, 1, 2], Fin 7)"
    by (simp add: nearest_neighbor_def nn_eval_simps find_nearest_def nearest_step_def
      get_distance_def triangle_edges_def cost_chain)
  have b: "nearest_neighbor [0, 1, 2] fork_edges [2, 1, 0] None = Inr ([0, 1], Fin 2)"
    by (simp add: nearest_neighbor_def nn_eval_simps find_nearest_def nearest_step_def
      get_distance_def fork_edges_def cost_chain)
  have h: "[0, 1, 2::nat] \<noteq> []" "distinct [0, 1, 2::nat]" "distinct [2, 1, 0::nat]"
    "set [2, 1, 0::nat] = set [0, 1, 2]"
    by auto
  have c: "get_distance fork_edges 1 2 = PInf"
    by (simp add: get_distance_def fork_edges_def)
  show ?thesis
    using nearest_neighbor_tour [OF h, of fork_edges] a b c by blast
qed

section \<open>2-opt\<close>

text \<open>
  The slice assignment \<^verbatim>\<open>new_tour[i:j] = reversed(new_tour[i:j])\<close>: positions
  \<open>i, \<dots>, j - 1\<close> are reversed in place, the rest of the tour is kept.
\<close>

definition reverse_segment :: "'c list \<Rightarrow> nat \<Rightarrow> nat \<Rightarrow> 'c list" where
  "reverse_segment tour i j = take i tour @ rev (take (j - i) (drop i tour)) @ drop j tour"

text \<open>
  The inner loop \<^verbatim>\<open>for j in range(i + 1, len(tour))\<close>, over the values of \<open>j\<close> still
  to be tried. It skips \<open>j - i = 1\<close> and leaves at the first reversal that is strictly
  cheaper than \<^verbatim>\<open>best_cost\<close> (the \<^verbatim>\<open>break\<close>), returning the new tour and its cost.
\<close>

fun scan_j :: "'c edges \<Rightarrow> 'c list \<Rightarrow> weight \<Rightarrow> nat \<Rightarrow> nat list \<Rightarrow> ('c list \<times> weight) option" where
  "scan_j edges best_tour best_cost i [] = None"
| "scan_j edges best_tour best_cost i (j # js) =
     (if j - i = 1 then scan_j edges best_tour best_cost i js
      else
        let new_tour = reverse_segment best_tour i j;
            new_cost = calculate_path_cost edges new_tour
        in if new_cost < best_cost then Some (new_tour, new_cost)
           else scan_j edges best_tour best_cost i js)"

text \<open>
  The outer loop \<^verbatim>\<open>for i in range(1, len(tour) - 2)\<close>, which is left as soon as the
  inner loop has found an improvement.
\<close>

fun scan_i :: "'c edges \<Rightarrow> 'c list \<Rightarrow> weight \<Rightarrow> nat \<Rightarrow> nat list \<Rightarrow> ('c list \<times> weight) option" where
  "scan_i edges best_tour best_cost n [] = None"
| "scan_i edges best_tour best_cost n (i # is) =
     (case scan_j edges best_tour best_cost i [i + 1..<n] of
        Some improved \<Rightarrow> Some improved
      | None \<Rightarrow> scan_i edges best_tour best_cost n is)"

lemma mset_reverse_segment:
  assumes "i \<le> j"
  shows "mset (reverse_segment t i j) = mset t"
proof -
  have "drop (j - i) (drop i t) = drop j t"
    using assms by simp
  then have "drop i t = take (j - i) (drop i t) @ drop j t"
    by (metis append_take_drop_id)
  then have "mset (drop i t) = mset (take (j - i) (drop i t)) + mset (drop j t)"
    by (metis mset_append)
  moreover have "mset t = mset (take i t) + mset (drop i t)"
    by (metis append_take_drop_id mset_append)
  ultimately show ?thesis
    by (simp add: reverse_segment_def)
qed

lemma scan_j_Some:
  assumes "scan_j E bt bc i js = Some (t', c')" and "\<forall>j\<in>set js. i \<le> j"
  shows "c' < bc \<and> c' = calculate_path_cost E t' \<and> mset t' = mset bt"
  using assms
  by (induction js) (auto simp: Let_def mset_reverse_segment split: if_splits)

lemma scan_i_Some:
  assumes "scan_i E bt bc n is = Some (t', c')"
  shows "c' < bc \<and> c' = calculate_path_cost E t' \<and> mset t' = mset bt"
  using assms
proof (induction "is")
  case Nil
  then show ?case by simp
next
  case (Cons i "is")
  show ?case
  proof (cases "scan_j E bt bc i [i + 1..<n]")
    case None
    then have "scan_i E bt bc n is = Some (t', c')" using Cons.prems by simp
    then show ?thesis using Cons.IH by blast
  next
    case (Some r)
    then have "scan_j E bt bc i [i + 1..<n] = Some (t', c')"
      using Cons.prems by simp
    then show ?thesis
      by (rule scan_j_Some) simp
  qed
qed

text \<open>
  The loop \<^verbatim>\<open>while improved\<close>: one full scan per round; the loop ends when a scan
  finds no improving reversal. \<open>n\<close> is \<^verbatim>\<open>len(tour)\<close>, the length of the seed tour.
  Every round strictly lowers the cost over a finite set of rearrangements, which is the
  termination argument.
\<close>

function two_opt_loop :: "'c edges \<Rightarrow> nat \<Rightarrow> 'c list \<Rightarrow> weight \<Rightarrow> 'c list \<times> weight" where
  "two_opt_loop edges n best_tour best_cost =
     (case scan_i edges best_tour best_cost n [1..<n - 2] of
        None \<Rightarrow> (best_tour, best_cost)
      | Some (new_tour, new_cost) \<Rightarrow> two_opt_loop edges n new_tour new_cost)"
  by pat_completeness auto
termination
proof (relation "measure (\<lambda>(edges, n, best_tour, best_cost).
          card {s. mset s = mset best_tour \<and> calculate_path_cost edges s < best_cost})")
  show "wf (measure (\<lambda>(edges, n, best_tour, best_cost).
          card {s. mset s = mset best_tour \<and> calculate_path_cost edges s < best_cost}))"
    by simp
next
  fix edges :: "'c edges" and n best_tour best_cost x2 new_tour new_cost
  assume "scan_i edges best_tour best_cost n [1..<n - 2] = Some x2" "(new_tour, new_cost) = x2"
  then have "scan_i edges best_tour best_cost n [1..<n - 2] = Some (new_tour, new_cost)"
    by simp
  from scan_i_Some [OF this]
  have lt: "new_cost < best_cost" and c: "new_cost = calculate_path_cost edges new_tour"
    and m: "mset new_tour = mset best_tour"
    by blast+
  let ?A = "{s. mset s = mset best_tour \<and> calculate_path_cost edges s < best_cost}"
  let ?B = "{s. mset s = mset new_tour \<and> calculate_path_cost edges s < new_cost}"
  have fin: "finite ?A"
    using mset_eq_finite [of best_tour] by (rule rev_finite_subset) auto
  have "?B \<subseteq> ?A" using lt m by auto
  moreover have "new_tour \<in> ?A" "new_tour \<notin> ?B" using lt c m by auto
  ultimately have "?B \<subset> ?A" by blast
  then have "card ?B < card ?A" using fin by (rule psubset_card_mono[rotated])
  then show "((edges, n, new_tour, new_cost), (edges, n, best_tour, best_cost))
      \<in> measure (\<lambda>(edges, n, best_tour, best_cost).
          card {s. mset s = mset best_tour \<and> calculate_path_cost edges s < best_cost})"
    by simp
qed

declare two_opt_loop.simps [simp del]

definition two_opt :: "'c edges \<Rightarrow> 'c list \<Rightarrow> 'c list \<times> weight" where
  "two_opt edges tour =
     two_opt_loop edges (length tour) tour (calculate_path_cost edges tour)"

lemma two_opt_loop_props:
  assumes "two_opt_loop E n bt bc = (t', c')" "bc = calculate_path_cost E bt"
  shows "c' \<le> bc \<and> c' = calculate_path_cost E t' \<and> mset t' = mset bt
       \<and> scan_i E t' c' n [1..<n - 2] = None"
  using assms
proof (induction E n bt bc rule: two_opt_loop.induct)
  case (1 E n bt bc)
  show ?case
  proof (cases "scan_i E bt bc n [1..<n - 2]")
    case None
    then have "(t', c') = (bt, bc)"
      using "1.prems"(1) by (simp add: two_opt_loop.simps)
    then show ?thesis using None "1.prems"(2) by simp
  next
    case (Some r)
    obtain nt nc where r: "r = (nt, nc)" by (cases r)
    have s: "scan_i E bt bc n [1..<n - 2] = Some (nt, nc)" using Some r by simp
    from scan_i_Some [OF s]
    have lt: "nc < bc" and c: "nc = calculate_path_cost E nt" and m: "mset nt = mset bt"
      by blast+
    have "two_opt_loop E n nt nc = (t', c')"
      using "1.prems"(1) s by (subst (asm) two_opt_loop.simps) simp
    from "1.IH" [OF Some r[symmetric] this c]
    show ?thesis using lt m by auto
  qed
qed

text \<open>
  C4. For every seed tour, the cost returned by \<^verbatim>\<open>two_opt\<close> is at most the cost of the
  seed tour, it is the cost of the returned tour, and running \<^verbatim>\<open>two_opt\<close> again on the
  returned tour returns the same cost.
\<close>

theorem two_opt_cost:
  "snd (two_opt edges tour) \<le> calculate_path_cost edges tour
   \<and> snd (two_opt edges tour) = calculate_path_cost edges (fst (two_opt edges tour))
   \<and> snd (two_opt edges (fst (two_opt edges tour))) = snd (two_opt edges tour)"
proof -
  obtain t' c' where r: "two_opt edges tour = (t', c')"
    by (cases "two_opt edges tour")
  then have l: "two_opt_loop edges (length tour) tour (calculate_path_cost edges tour) = (t', c')"
    by (simp add: two_opt_def)
  from two_opt_loop_props [OF l]
  have le: "c' \<le> calculate_path_cost edges tour" and c: "c' = calculate_path_cost edges t'"
    and m: "mset t' = mset tour"
    and fp: "scan_i edges t' c' (length tour) [1..<length tour - 2] = None"
    by blast+
  have len: "length t' = length tour"
    using m by (metis size_mset)
  have "two_opt edges t' = (t', c')"
    unfolding two_opt_def len c [symmetric]
    using fp by (subst two_opt_loop.simps) simp
  then show ?thesis using r le c by simp
qed

text \<open>
  Five cities on a ring: neighbours on the ring are at distance 1, all other pairs at
  distance 3.
\<close>

definition pentagon_edges :: "nat edges" where
  "pentagon_edges = (\<lambda>(a, b). if a = b \<or> 4 < a \<or> 4 < b then None
       else if (a + 1) mod 5 = b \<or> (b + 1) mod 5 = a then Some (Fin 1) else Some (Fin 3))"

theorem two_opt_cost_witness:
  "two_opt pentagon_edges [0, 2, 1, 3, 4] = ([0, 1, 2, 3, 4], Fin 5)
   \<and> calculate_path_cost pentagon_edges [0, 2, 1, 3, 4] = Fin 9
   \<and> snd (two_opt pentagon_edges (fst (two_opt pentagon_edges [0, 2, 1, 3, 4]))) = Fin 5"
proof -
  have a: "two_opt pentagon_edges [0, 2, 1, 3, 4] = ([0, 1, 2, 3, 4], Fin 5)"
    by code_simp
  have b: "calculate_path_cost pentagon_edges [0, 2, 1, 3, 4] = Fin 9"
    by code_simp
  from two_opt_cost [of pentagon_edges "[0, 2, 1, 3, 4]"]
  have "snd (two_opt pentagon_edges (fst (two_opt pentagon_edges [0, 2, 1, 3, 4])))
      = snd (two_opt pentagon_edges [0, 2, 1, 3, 4])"
    by blast
  then have "snd (two_opt pentagon_edges (fst (two_opt pentagon_edges [0, 2, 1, 3, 4]))) = Fin 5"
    by (metis a snd_conv)
  then show ?thesis using a b by blast
qed

section \<open>Held-Karp dynamic programming\<close>

text \<open>
  The tables \<^verbatim>\<open>dp\<close> and \<^verbatim>\<open>parent\<close> are lists of \<open>2 ^ n\<close> rows of \<open>n\<close> entries,
  read with \<open>get2\<close> and written with \<open>set2\<close>. Every index the program uses is in range
  (a mask below \<open>2 ^ n\<close>, a city index below \<open>n\<close>). The names \<^verbatim>\<open>mask\<close> and \<^verbatim>\<open>last\<close>
  of the source are written \<open>msk\<close> and \<open>last_city\<close>, since HOL has constants of those
  names. The dictionary \<^verbatim>\<open>city_to_idx\<close> is never read and is left out.
\<close>

definition get2 :: "'a list list \<Rightarrow> nat \<Rightarrow> nat \<Rightarrow> 'a" where
  "get2 t m i = t ! m ! i"

definition set2 :: "'a list list \<Rightarrow> nat \<Rightarrow> nat \<Rightarrow> 'a \<Rightarrow> 'a list list" where
  "set2 t m i v = t[m := (t ! m)[i := v]]"

type_synonym dp_state = "weight list list \<times> nat option list list"

text \<open>
  The body of the innermost loop \<^verbatim>\<open>for next_city in range(n)\<close>: a city already in the
  mask is skipped; otherwise the entry for the enlarged mask is lowered when the new cost
  is strictly smaller, and the predecessor is recorded.
\<close>

definition relax :: "'c list \<Rightarrow> 'c edges \<Rightarrow> nat \<Rightarrow> nat \<Rightarrow> nat \<Rightarrow> dp_state \<Rightarrow> dp_state" where
  "relax cities edges msk last_city next_city st =
     (case st of (dp, parent) \<Rightarrow>
        if and msk (push_bit next_city 1) \<noteq> 0 then st
        else
          let next_mask = or msk (push_bit next_city 1);
              dist = get_distance edges (cities ! last_city) (cities ! next_city);
              new_cost = get2 dp msk last_city + dist
          in if new_cost < get2 dp next_mask next_city
             then (set2 dp next_mask next_city new_cost,
                   set2 parent next_mask next_city (Some last_city))
             else st)"

text \<open>
  The body of the loop \<^verbatim>\<open>for last in range(n)\<close>, with its two \<^verbatim>\<open>continue\<close> tests.
\<close>

definition extend :: "'c list \<Rightarrow> 'c edges \<Rightarrow> nat \<Rightarrow> nat \<Rightarrow> nat \<Rightarrow> dp_state \<Rightarrow> dp_state" where
  "extend cities edges n msk last_city st =
     (if and msk (push_bit last_city 1) = 0 then st
      else if get2 (fst st) msk last_city = PInf then st
      else fold (relax cities edges msk last_city) [0..<n] st)"

definition process_mask :: "'c list \<Rightarrow> 'c edges \<Rightarrow> nat \<Rightarrow> nat \<Rightarrow> dp_state \<Rightarrow> dp_state" where
  "process_mask cities edges n msk st = fold (extend cities edges n msk) [0..<n] st"

text \<open>The tables before the loops: all \<^verbatim>\<open>inf\<close> and \<^verbatim>\<open>None\<close>, and \<^verbatim>\<open>dp[1][0] = 0\<close>.\<close>

definition dp_init :: "nat \<Rightarrow> dp_state" where
  "dp_init n =
     (set2 (replicate (push_bit n 1) (replicate n PInf)) 1 0 0,
      replicate (push_bit n 1) (replicate n None))"

text \<open>The loop \<^verbatim>\<open>for mask in range(1, 1 << n)\<close>.\<close>

definition dp_fill :: "'c list \<Rightarrow> 'c edges \<Rightarrow> nat \<Rightarrow> dp_state" where
  "dp_fill cities edges n =
     fold (process_mask cities edges n) [1..<push_bit n 1] (dp_init n)"

text \<open>
  The body of the loop that finds the best ending city. The pair is
  \<^verbatim>\<open>(best_cost, best_last)\<close>; \<open>None\<close> stands for the initial \<^verbatim>\<open>best_last = -1\<close>.
\<close>

definition best_step ::
  "'c list \<Rightarrow> 'c edges \<Rightarrow> weight list list \<Rightarrow> nat \<Rightarrow> nat \<Rightarrow> weight \<times> nat option
     \<Rightarrow> weight \<times> nat option" where
  "best_step cities edges dp full_mask last_city acc =
     (case acc of (best_cost, best_last) \<Rightarrow>
        let cost = get2 dp full_mask last_city + get_distance edges (cities ! last_city) (cities ! 0)
        in if cost < best_cost then (cost, Some last_city) else (best_cost, best_last))"

text \<open>
  The loop \<^verbatim>\<open>while current != 0\<close> that walks the predecessor pointers. \<open>current\<close> is
  \<open>None\<close> when the table entry read was Python's \<^verbatim>\<open>None\<close>; indexing the city list with
  it raises \<^verbatim>\<open>TypeError\<close>. Nothing in the loop itself bounds the number of rounds, so the
  function is partial: the outer \<open>None\<close> is a loop that never ends.
\<close>

partial_function (option) reconstruct ::
  "'c list \<Rightarrow> nat option list list \<Rightarrow> nat \<Rightarrow> nat option \<Rightarrow> 'c list \<Rightarrow> (error + 'c list) option"
  where
  "reconstruct cities parent msk current path =
     (case current of
        None \<Rightarrow> Some (Inl TypeError)
      | Some c \<Rightarrow>
          if c = 0 then Some (Inr path)
          else reconstruct cities parent (xor msk (push_bit c 1)) (get2 parent msk c)
                 (path @ [cities ! c]))"

declare reconstruct.simps [code]

text \<open>
  \<^verbatim>\<open>dynamic_programming\<close>. Fewer than two cities give the empty tour at cost 0; more
  than 20 cities are handed to \<^verbatim>\<open>nearest_neighbor\<close>. When no ending city has a finite
  cost the path stays empty and the cost is \<^verbatim>\<open>inf\<close>.
\<close>

definition dynamic_programming ::
  "'c list \<Rightarrow> 'c edges \<Rightarrow> 'c list \<Rightarrow> (error + 'c list \<times> weight) option" where
  "dynamic_programming cities edges set_iter =
     (if length cities < 2 then Some (Inr ([], 0))
      else
        let n = length cities
        in if n > 20 then Some (nearest_neighbor cities edges set_iter None)
           else
             case dp_fill cities edges n of (dp, parent) \<Rightarrow>
               let full_mask = push_bit n 1 - 1
               in case fold (best_step cities edges dp full_mask) [0..<n] (PInf, None) of
                    (best_cost, None) \<Rightarrow> Some (Inr ([], best_cost))
                  | (best_cost, Some best_last) \<Rightarrow>
                      (case reconstruct cities parent full_mask (Some best_last) [] of
                         None \<Rightarrow> None
                       | Some (Inl e) \<Rightarrow> Some (Inl e)
                       | Some (Inr path) \<Rightarrow> Some (Inr (rev (path @ [cities ! 0]), best_cost))))"

lemma test_bit_iff: "and (m::nat) (2 ^ j) \<noteq> 0 \<longleftrightarrow> bit m j"
  using bit_iff_and_push_bit_not_eq_0 [of m j] by simp

lemma test_bit_zero_iff: "and (m::nat) (2 ^ j) = 0 \<longleftrightarrow> \<not> bit m j"
  using test_bit_iff [of m j] by blast

lemma bit_or_bit: "bit (or (m::nat) (2 ^ j)) i \<longleftrightarrow> bit m i \<or> i = j"
  by (auto simp: bit_simps)

lemma bit_xor_bit: "bit (xor (m::nat) (2 ^ j)) i \<longleftrightarrow> (bit m i \<and> i \<noteq> j) \<or> (\<not> bit m i \<and> i = j)"
  by (auto simp: bit_simps)

lemma less_exp_bits:
  assumes "\<And>i. bit (m::nat) i \<Longrightarrow> i < n"
  shows "m < 2 ^ n"
proof -
  have "take_bit n m = m"
    by (rule bit_eqI) (use assms in \<open>auto simp: bit_simps\<close>)
  then show ?thesis
    by (simp add: take_bit_nat_eq_self_iff)
qed

lemma bit_less_exp:
  assumes "(m::nat) < 2 ^ n" "bit m i"
  shows "i < n"
proof -
  have "take_bit n m = m"
    using assms(1) by (simp add: take_bit_nat_eq_self_iff)
  then have "bit (take_bit n m) i"
    using assms(2) by simp
  then show ?thesis
    by (simp add: bit_simps)
qed

lemma or_bit_less:
  assumes "(m::nat) < 2 ^ n" "j < n"
  shows "or m (2 ^ j) < 2 ^ n"
  by (rule less_exp_bits) (use assms bit_less_exp in \<open>auto simp: bit_or_bit\<close>)

lemma or_bit_eq_add:
  assumes "\<not> bit (m::nat) j"
  shows "or m (2 ^ j) = m + 2 ^ j"
proof -
  have "and m (2 ^ j) = 0"
    using assms test_bit_iff [of m j] by simp
  then have "m + 2 ^ j = or m (2 ^ j)"
    by (rule disjunctive_add_eq_or)
  then show ?thesis by simp
qed

lemma or_bit_greater:
  assumes "\<not> bit (m::nat) j"
  shows "m < or m (2 ^ j)"
  using or_bit_eq_add [OF assms] by simp

lemma xor_or_bit:
  assumes "\<not> bit (m::nat) j"
  shows "xor (or m (2 ^ j)) (2 ^ j) = m"
  by (rule bit_eqI) (use assms in \<open>auto simp: bit_or_bit bit_xor_bit\<close>)

lemma xor_bit_less:
  assumes "bit (m::nat) j"
  shows "xor m (2 ^ j) < m"
proof -
  let ?a = "xor m (2 ^ j)"
  have nb: "\<not> bit ?a j" using assms by (simp add: bit_xor_bit)
  have "or ?a (2 ^ j) = m"
    by (rule bit_eqI) (use assms in \<open>auto simp: bit_or_bit bit_xor_bit\<close>)
  then have "m = ?a + 2 ^ j"
    using or_bit_eq_add [OF nb] by simp
  then show ?thesis
    by (metis less_add_same_cancel1 zero_less_numeral zero_less_power)
qed

subsection \<open>Invariants of the table\<close>

text \<open>
  The lemmas below follow the three nested loops. \<open>shape\<close> says that a table has \<open>2 ^ n\<close>
  rows of \<open>n\<close> entries. \<open>linked\<close> says that every finite entry other than the start has a
  predecessor pointer that leads to a finite entry of a smaller mask, which is what makes
  the walk along the pointers end. \<open>evolves m\<close> relates the tables before and after work
  on mask \<open>m\<close>: entries only decrease, and entries of masks up to \<open>m\<close> stay as they are.
\<close>

definition shape :: "nat \<Rightarrow> 'a list list \<Rightarrow> bool" where
  "shape n t \<longleftrightarrow> length t = 2 ^ n \<and> (\<forall>row\<in>set t. length row = n)"

lemma get2_set2_other:
  "(m', i') \<noteq> (m, i) \<Longrightarrow> get2 (set2 t m i v) m' i' = get2 t m' i'"
  by (cases "m < length t"; cases "m' = m") (auto simp: get2_def set2_def list_update_beyond)

lemma get2_set2_same:
  assumes "shape n t" "m < 2 ^ n" "i < n"
  shows "get2 (set2 t m i v) m i = v"
proof -
  have m: "m < length t" using assms by (simp add: shape_def)
  then have "t ! m \<in> set t" by simp
  then have "length (t ! m) = n" using assms(1) unfolding shape_def by blast
  then show ?thesis using m assms(3) by (simp add: get2_def set2_def)
qed

lemma shape_set2:
  assumes "shape n t"
  shows "shape n (set2 t m i v)"
proof (cases "m < length t")
  case True
  then have "t ! m \<in> set t" by simp
  then have "length ((t ! m)[i := v]) = n"
    using assms unfolding shape_def by simp
  moreover have "set (t[m := (t ! m)[i := v]]) \<subseteq> insert ((t ! m)[i := v]) (set t)"
    by (rule set_update_subset_insert)
  ultimately show ?thesis
    using assms unfolding shape_def set2_def by auto
next
  case False
  then show ?thesis using assms by (simp add: set2_def list_update_beyond)
qed

lemma PInf_add [simp]: "PInf + w = PInf" "w + PInf = PInf"
  by (cases w; simp)+

lemma add_eq_PInf_iff: "a + b = PInf \<longleftrightarrow> a = PInf \<or> b = PInf"
  by (cases a; cases b) simp_all

definition linked :: "nat \<Rightarrow> weight list list \<Rightarrow> nat option list list \<Rightarrow> bool" where
  "linked n dp parent \<longleftrightarrow>
     (\<forall>M j. M < 2 ^ n \<longrightarrow> j < n \<longrightarrow> get2 dp M j \<noteq> PInf \<longrightarrow>
        (M = 1 \<and> j = 0) \<or>
        (bit M j \<and> (\<exists>l<n. get2 parent M j = Some l \<and> get2 dp (xor M (2 ^ j)) l \<noteq> PInf)))"

definition dp_inv :: "nat \<Rightarrow> dp_state \<Rightarrow> bool" where
  "dp_inv n st \<longleftrightarrow> shape n (fst st) \<and> shape n (snd st) \<and> linked n (fst st) (snd st)"

definition evolves :: "nat \<Rightarrow> dp_state \<Rightarrow> dp_state \<Rightarrow> bool" where
  "evolves m st st' \<longleftrightarrow>
     (\<forall>M i. get2 (fst st') M i \<le> get2 (fst st) M i) \<and>
     (\<forall>M i. M \<le> m \<longrightarrow> get2 (fst st') M i = get2 (fst st) M i)"

lemma evolves_refl: "evolves m st st"
  by (simp add: evolves_def)

lemma evolves_trans: "evolves m a b \<Longrightarrow> evolves m b c \<Longrightarrow> evolves m a c"
  unfolding evolves_def by (metis order_trans)

lemma evolves_mono: "evolves m a b \<Longrightarrow> m' \<le> m \<Longrightarrow> evolves m' a b"
  unfolding evolves_def by (meson order_trans)

lemma relax_step:
  assumes inv: "dp_inv n st" and m: "msk < 2 ^ n" and l: "l < n" and j: "j < n"
  shows "dp_inv n (relax cities E msk l j st)
       \<and> evolves msk st (relax cities E msk l j st)
       \<and> (\<not> bit msk j \<longrightarrow>
            get2 (fst (relax cities E msk l j st)) (or msk (2 ^ j)) j
              \<le> get2 (fst st) msk l + get_distance E (cities ! l) (cities ! j))"
proof (cases "bit msk j")
  case True
  then have "relax cities E msk l j st = st"
    by (simp add: relax_def test_bit_zero_iff split: prod.splits)
  then show ?thesis using inv True by (simp add: evolves_refl)
next
  case False
  obtain dp parent where st: "st = (dp, parent)" by (cases st)
  define nm where "nm = or msk (2 ^ j)"
  define nc where "nc = get2 dp msk l + get_distance E (cities ! l) (cities ! j)"
  have nm_lt: "nm < 2 ^ n" unfolding nm_def using m j by (rule or_bit_less)
  have nm_gt: "msk < nm" unfolding nm_def using False by (rule or_bit_greater)
  have nm_bit: "bit nm j" by (simp add: nm_def bit_or_bit)
  have nm_xor: "xor nm (2 ^ j) = msk" unfolding nm_def using False by (rule xor_or_bit)
  have sh: "shape n dp" "shape n parent" and lk: "linked n dp parent"
    using inv by (simp_all add: dp_inv_def st)
  show ?thesis
  proof (cases "nc < get2 dp nm j")
    case no: False
    then have "relax cities E msk l j st = st"
      using False by (simp add: relax_def test_bit_zero_iff st nm_def nc_def Let_def)
    then show ?thesis
      using inv no by (simp add: evolves_refl st nm_def nc_def linorder_not_less)
  next
    case yes: True
    then have r: "relax cities E msk l j st = (set2 dp nm j nc, set2 parent nm j (Some l))"
      using False by (simp add: relax_def test_bit_zero_iff st nm_def nc_def Let_def)
    have nc_fin: "nc \<noteq> PInf" using yes by (cases nc) auto
    then have src_fin: "get2 dp msk l \<noteq> PInf"
      by (auto simp: nc_def)
    have new: "get2 (set2 dp nm j nc) nm j = nc"
      using sh(1) nm_lt j by (rule get2_set2_same)
    have newp: "get2 (set2 parent nm j (Some l)) nm j = Some l"
      using sh(2) nm_lt j by (rule get2_set2_same)
    have fin': "get2 (set2 dp nm j nc) M i \<noteq> PInf" if "get2 dp M i \<noteq> PInf" for M i
      using that nc_fin new by (cases "(M, i) = (nm, j)") (auto simp: get2_set2_other)
    have "linked n (set2 dp nm j nc) (set2 parent nm j (Some l))"
      unfolding linked_def
    proof (intro allI impI)
      fix M i
      assume M: "M < 2 ^ n" and i: "i < n" and f: "get2 (set2 dp nm j nc) M i \<noteq> PInf"
      show "(M = 1 \<and> i = 0) \<or>
        (bit M i \<and> (\<exists>l'<n. get2 (set2 parent nm j (Some l)) M i = Some l'
            \<and> get2 (set2 dp nm j nc) (xor M (2 ^ i)) l' \<noteq> PInf))"
      proof (cases "(M, i) = (nm, j)")
        case True
        then show ?thesis
          using nm_bit newp l nm_xor fin' [OF src_fin] by auto
      next
        case False
        then have "get2 dp M i \<noteq> PInf"
          using f by (simp add: get2_set2_other)
        then have "(M = 1 \<and> i = 0) \<or>
          (bit M i \<and> (\<exists>l'<n. get2 parent M i = Some l' \<and> get2 dp (xor M (2 ^ i)) l' \<noteq> PInf))"
          using lk M i unfolding linked_def by blast
        then show ?thesis
          using False fin' by (auto simp: get2_set2_other)
      qed
    qed
    then have a: "dp_inv n (relax cities E msk l j st)"
      using sh by (simp add: r dp_inv_def shape_set2)
    have ev: "evolves msk (dp, parent) (set2 dp nm j nc, set2 parent nm j (Some l))"
      unfolding evolves_def fst_conv
    proof (intro conjI allI impI)
      fix M i
      show "get2 (set2 dp nm j nc) M i \<le> get2 dp M i"
        using yes new by (cases "(M, i) = (nm, j)") (auto simp: get2_set2_other)
    next
      fix M i
      assume "M \<le> msk"
      then have "(M, i) \<noteq> (nm, j)" using nm_gt by auto
      then show "get2 (set2 dp nm j nc) M i = get2 dp M i"
        by (simp add: get2_set2_other)
    qed
    have b: "evolves msk st (relax cities E msk l j st)"
      unfolding r unfolding st by (rule ev)
    have c: "get2 (fst (relax cities E msk l j st)) (or msk (2 ^ j)) j
              \<le> get2 (fst st) msk l + get_distance E (cities ! l) (cities ! j)"
      unfolding r unfolding st fst_conv nm_def [symmetric] nc_def [symmetric]
      by (simp add: new)
    show ?thesis using a b c by blast
  qed
qed

text \<open>
  \<open>relaxed\<close>: every extension of the state \<open>(msk, l)\<close> by one more city has been taken
  into account in the table.
\<close>

definition relaxed :: "nat \<Rightarrow> 'c list \<Rightarrow> 'c edges \<Rightarrow> weight list list \<Rightarrow> nat \<Rightarrow> nat \<Rightarrow> bool" where
  "relaxed n cities E dp msk l \<longleftrightarrow>
     (\<forall>j<n. \<not> bit msk j \<longrightarrow>
        get2 dp (or msk (2 ^ j)) j \<le> get2 dp msk l + get_distance E (cities ! l) (cities ! j))"

lemma relaxed_evolves:
  assumes "relaxed n cities E (fst st) msk l" "evolves m st st'" "msk \<le> m"
  shows "relaxed n cities E (fst st') msk l"
  unfolding relaxed_def
proof (intro allI impI)
  fix j assume j: "j < n" "\<not> bit msk j"
  have "get2 (fst st') (or msk (2 ^ j)) j \<le> get2 (fst st) (or msk (2 ^ j)) j"
    using assms(2) by (simp add: evolves_def)
  also have "\<dots> \<le> get2 (fst st) msk l + get_distance E (cities ! l) (cities ! j)"
    using assms(1) j by (simp add: relaxed_def)
  also have "get2 (fst st) msk l = get2 (fst st') msk l"
    using assms(2,3) by (simp add: evolves_def)
  finally show "get2 (fst st') (or msk (2 ^ j)) j
      \<le> get2 (fst st') msk l + get_distance E (cities ! l) (cities ! j)" .
qed

lemma relax_fold:
  assumes "dp_inv n st" "msk < 2 ^ n" "l < n" "\<forall>j\<in>set js. j < n"
  shows "dp_inv n (fold (relax cities E msk l) js st)
       \<and> evolves msk st (fold (relax cities E msk l) js st)
       \<and> (\<forall>j\<in>set js. \<not> bit msk j \<longrightarrow>
            get2 (fst (fold (relax cities E msk l) js st)) (or msk (2 ^ j)) j
              \<le> get2 (fst st) msk l + get_distance E (cities ! l) (cities ! j))"
  using assms
proof (induction js arbitrary: st)
  case Nil
  then show ?case by (simp add: evolves_refl)
next
  case (Cons j js)
  let ?st1 = "relax cities E msk l j st"
  let ?st' = "fold (relax cities E msk l) js ?st1"
  have j: "j < n" using Cons.prems(4) by simp
  note r = relax_step [OF Cons.prems(1,2,3) j, of cities E]
  note s1 = r [THEN conjunct1] and e1 = r [THEN conjunct2, THEN conjunct1]
    and b1 = r [THEN conjunct2, THEN conjunct2]
  have js: "\<forall>j\<in>set js. j < n" using Cons.prems(4) by simp
  note ih = Cons.IH [OF s1 Cons.prems(2,3) js]
  note s2 = ih [THEN conjunct1] and e2 = ih [THEN conjunct2, THEN conjunct1]
    and b2 = ih [THEN conjunct2, THEN conjunct2]
  have eq: "get2 (fst ?st1) msk l = get2 (fst st) msk l"
    using e1 by (simp add: evolves_def)
  have le: "get2 (fst ?st') M i \<le> get2 (fst ?st1) M i" for M i
    using e2 by (simp add: evolves_def)
  have bj: "\<not> bit msk j \<longrightarrow> get2 (fst ?st') (or msk (2 ^ j)) j
              \<le> get2 (fst st) msk l + get_distance E (cities ! l) (cities ! j)"
    using b1 le [of "or msk (2 ^ j)" j] by (auto intro: order_trans)
  have bjs: "\<forall>j'\<in>set js. \<not> bit msk j' \<longrightarrow> get2 (fst ?st') (or msk (2 ^ j')) j'
              \<le> get2 (fst st) msk l + get_distance E (cities ! l) (cities ! j')"
    using b2 unfolding eq .
  have "\<forall>j'\<in>set (j # js). \<not> bit msk j' \<longrightarrow> get2 (fst ?st') (or msk (2 ^ j')) j'
              \<le> get2 (fst st) msk l + get_distance E (cities ! l) (cities ! j')"
    using bj bjs by simp
  then show ?case
    using s2 evolves_trans [OF e1 e2] by simp
qed

lemma extend_step:
  assumes "dp_inv n st" "msk < 2 ^ n" "l < n"
  shows "dp_inv n (extend cities E n msk l st)
       \<and> evolves msk st (extend cities E n msk l st)
       \<and> (bit msk l \<longrightarrow> relaxed n cities E (fst (extend cities E n msk l st)) msk l)"
proof (cases "bit msk l \<and> get2 (fst st) msk l \<noteq> PInf")
  case False
  then have e: "extend cities E n msk l st = st"
    by (auto simp: extend_def test_bit_zero_iff)
  have "relaxed n cities E (fst st) msk l" if "get2 (fst st) msk l = PInf"
    using that by (simp add: relaxed_def)
  then show ?thesis
    using False assms(1) by (auto simp: e evolves_refl)
next
  case True
  let ?st' = "fold (relax cities E msk l) [0..<n] st"
  have e: "extend cities E n msk l st = ?st'"
    using True by (simp add: extend_def test_bit_zero_iff)
  have "\<forall>j\<in>set [0..<n]. j < n" by simp
  note r = relax_fold [OF assms this, of cities E]
  note s = r [THEN conjunct1] and ev = r [THEN conjunct2, THEN conjunct1]
  have b: "\<forall>j<n. \<not> bit msk j \<longrightarrow> get2 (fst ?st') (or msk (2 ^ j)) j
              \<le> get2 (fst st) msk l + get_distance E (cities ! l) (cities ! j)"
    using r [THEN conjunct2, THEN conjunct2] by simp
  have "get2 (fst ?st') msk l = get2 (fst st) msk l"
    using ev by (simp add: evolves_def)
  then have "relaxed n cities E (fst ?st') msk l"
    using b by (simp add: relaxed_def)
  then show ?thesis
    using s ev by (simp add: e)
qed

lemma extend_fold:
  assumes "dp_inv n st" "msk < 2 ^ n" "\<forall>l\<in>set ls. l < n"
  shows "dp_inv n (fold (extend cities E n msk) ls st)
       \<and> evolves msk st (fold (extend cities E n msk) ls st)
       \<and> (\<forall>l\<in>set ls. bit msk l \<longrightarrow>
            relaxed n cities E (fst (fold (extend cities E n msk) ls st)) msk l)"
  using assms
proof (induction ls arbitrary: st)
  case Nil
  then show ?case by (simp add: evolves_refl)
next
  case (Cons l ls)
  let ?st1 = "extend cities E n msk l st"
  let ?st' = "fold (extend cities E n msk) ls ?st1"
  have l: "l < n" using Cons.prems(3) by simp
  note r = extend_step [OF Cons.prems(1,2) l, of cities E]
  note s1 = r [THEN conjunct1] and e1 = r [THEN conjunct2, THEN conjunct1]
    and b1 = r [THEN conjunct2, THEN conjunct2]
  have ls: "\<forall>l\<in>set ls. l < n" using Cons.prems(3) by simp
  note ih = Cons.IH [OF s1 Cons.prems(2) ls]
  note s2 = ih [THEN conjunct1] and e2 = ih [THEN conjunct2, THEN conjunct1]
    and b2 = ih [THEN conjunct2, THEN conjunct2]
  have "bit msk l \<longrightarrow> relaxed n cities E (fst ?st') msk l"
    using b1 relaxed_evolves [OF _ e2, of n cities E msk l] by auto
  then show ?case
    using s2 evolves_trans [OF e1 e2] b2 by simp
qed

lemma process_mask_step:
  assumes "dp_inv n st" "msk < 2 ^ n"
  shows "dp_inv n (process_mask cities E n msk st)
       \<and> evolves msk st (process_mask cities E n msk st)
       \<and> (\<forall>l<n. bit msk l \<longrightarrow> relaxed n cities E (fst (process_mask cities E n msk st)) msk l)"
proof -
  have "\<forall>l\<in>set [0..<n]. l < n" by simp
  note r = extend_fold [OF assms this, of cities E]
  have "\<forall>l<n. bit msk l \<longrightarrow> relaxed n cities E (fst (fold (extend cities E n msk) [0..<n] st)) msk l"
    using r [THEN conjunct2, THEN conjunct2] by simp
  then show ?thesis
    unfolding process_mask_def
    using r [THEN conjunct1] r [THEN conjunct2, THEN conjunct1] by (intro conjI)
qed

lemma fill_fold:
  assumes "dp_inv n st" "k \<le> 2 ^ n"
  shows "dp_inv n (fold (process_mask cities E n) [1..<k] st)
       \<and> evolves 1 st (fold (process_mask cities E n) [1..<k] st)
       \<and> (\<forall>M l. 1 \<le> M \<longrightarrow> M < k \<longrightarrow> l < n \<longrightarrow> bit M l \<longrightarrow>
            relaxed n cities E (fst (fold (process_mask cities E n) [1..<k] st)) M l)"
  using assms(2)
proof (induction k)
  case 0
  then show ?case using assms(1) by (simp add: evolves_refl)
next
  case (Suc k)
  show ?case
  proof (cases "k = 0")
    case True
    then show ?thesis using assms(1) by (simp add: evolves_refl)
  next
    case False
    let ?st1 = "fold (process_mask cities E n) [1..<k] st"
    let ?st' = "process_mask cities E n k ?st1"
    have k: "k < 2 ^ n" "1 \<le> k" using Suc.prems False by auto
    have f: "fold (process_mask cities E n) [1..<Suc k] st = ?st'"
      using k(2) by simp
    have "k \<le> 2 ^ n" using k(1) by simp
    note ih = Suc.IH [OF this]
    note s1 = ih [THEN conjunct1] and e1 = ih [THEN conjunct2, THEN conjunct1]
      and b1 = ih [THEN conjunct2, THEN conjunct2]
    note r = process_mask_step [OF s1 k(1), of cities E]
    note s2 = r [THEN conjunct1] and e2 = r [THEN conjunct2, THEN conjunct1]
      and b2 = r [THEN conjunct2, THEN conjunct2]
    have e: "evolves 1 st ?st'"
      using e1 evolves_mono [OF e2 k(2)] by (rule evolves_trans)
    have "relaxed n cities E (fst ?st') M l"
      if "1 \<le> M" "M < Suc k" "l < n" "bit M l" for M l
    proof (cases "M = k")
      case True
      then show ?thesis using b2 that by simp
    next
      case False
      then have "M < k" using that(2) by simp
      then have "relaxed n cities E (fst ?st1) M l"
        using b1 that(1,3,4) by blast
      then show ?thesis
        by (rule relaxed_evolves [OF _ e2]) (use \<open>M < k\<close> in simp)
    qed
    then have b: "\<forall>M l. 1 \<le> M \<longrightarrow> M < Suc k \<longrightarrow> l < n \<longrightarrow> bit M l \<longrightarrow>
        relaxed n cities E (fst ?st') M l"
      by blast
    show ?thesis
      unfolding f by (intro conjI s2 e b)
  qed
qed

lemma shape_replicate: "shape n (replicate (2 ^ n) (replicate n x))"
  by (simp add: shape_def)

lemma get2_replicate: "M < k \<Longrightarrow> j < n \<Longrightarrow> get2 (replicate k (replicate n x)) M j = x"
  by (simp add: get2_def)

lemma dp_init_inv:
  assumes "1 \<le> n"
  shows "dp_inv n (dp_init n)" and "get2 (fst (dp_init n)) 1 0 = 0"
proof -
  let ?t = "replicate (2 ^ n) (replicate n PInf)"
  have one: "(1::nat) < 2 ^ n" using assms one_less_power [of "2::nat" n] by simp
  have zero: "0 < n" using assms by simp
  have sh: "shape n ?t" by (rule shape_replicate)
  have "linked n (set2 ?t 1 0 0) (replicate (2 ^ n) (replicate n None))"
    unfolding linked_def
  proof (intro allI impI)
    fix M j
    assume M: "M < 2 ^ n" and j: "j < n" and f: "get2 (set2 ?t 1 0 0) M j \<noteq> PInf"
    have "(M, j) = (1, 0)"
    proof (rule ccontr)
      assume "(M, j) \<noteq> (1, 0)"
      then have "get2 (set2 ?t 1 0 0) M j = get2 ?t M j"
        by (rule get2_set2_other)
      then show False using f M j by (simp add: get2_replicate)
    qed
    then show "(M = 1 \<and> j = 0) \<or> (bit M j \<and> (\<exists>l<n.
        get2 (replicate (2 ^ n) (replicate n None)) M j = Some l
        \<and> get2 (set2 ?t 1 0 0) (xor M (2 ^ j)) l \<noteq> PInf))"
      by simp
  qed
  then show "dp_inv n (dp_init n)"
    using sh by (simp add: dp_inv_def dp_init_def shape_set2 shape_replicate)
  show "get2 (fst (dp_init n)) 1 0 = 0"
    using get2_set2_same [OF sh one zero] by (simp add: dp_init_def)
qed

lemma dp_fill_props:
  assumes "1 \<le> n"
  shows "dp_inv n (dp_fill cities E n)"
    and "get2 (fst (dp_fill cities E n)) 1 0 = 0"
    and "\<forall>M l. 1 \<le> M \<longrightarrow> M < 2 ^ n \<longrightarrow> l < n \<longrightarrow> bit M l \<longrightarrow>
           relaxed n cities E (fst (dp_fill cities E n)) M l"
proof -
  have "(2::nat) ^ n \<le> 2 ^ n" by simp
  note r = fill_fold [OF dp_init_inv(1) [OF assms] this, of cities E]
  have f: "dp_fill cities E n = fold (process_mask cities E n) [1..<2 ^ n] (dp_init n)"
    by (simp add: dp_fill_def)
  show "dp_inv n (dp_fill cities E n)"
    unfolding f by (rule r [THEN conjunct1])
  have "evolves 1 (dp_init n) (dp_fill cities E n)"
    unfolding f by (rule r [THEN conjunct2, THEN conjunct1])
  then have "get2 (fst (dp_fill cities E n)) 1 0 = get2 (fst (dp_init n)) 1 0"
    by (simp add: evolves_def)
  then show "get2 (fst (dp_fill cities E n)) 1 0 = 0"
    using dp_init_inv(2) [OF assms] by simp
  show "\<forall>M l. 1 \<le> M \<longrightarrow> M < 2 ^ n \<longrightarrow> l < n \<longrightarrow> bit M l \<longrightarrow>
           relaxed n cities E (fst (dp_fill cities E n)) M l"
    unfolding f by (rule r [THEN conjunct2, THEN conjunct2])
qed

text \<open>The bit mask of a list of city indices.\<close>

definition mask_of :: "nat list \<Rightarrow> nat" where
  "mask_of q = fold (\<lambda>i m. or m (2 ^ i)) q 0"

lemma mask_of_snoc: "mask_of (q @ [j]) = or (mask_of q) (2 ^ j)"
  by (simp add: mask_of_def)

lemma bit_mask_of: "bit (mask_of q) i \<longleftrightarrow> i \<in> set q"
proof (induction q rule: rev_induct)
  case Nil
  then show ?case by (simp add: mask_of_def)
next
  case (snoc j q)
  then show ?case by (auto simp: mask_of_snoc bit_or_bit)
qed

lemma mask_of_less: "set q \<subseteq> {..<n} \<Longrightarrow> mask_of q < 2 ^ n"
  by (rule less_exp_bits) (auto simp: bit_mask_of)

lemma mask_of_full: "set q = {..<n} \<Longrightarrow> mask_of q = 2 ^ n - 1"
proof -
  assume "set q = {..<n}"
  then have "mask_of q = (mask n :: nat)"
    by (intro bit_eqI) (simp add: bit_mask_of bit_mask_iff)
  then show ?thesis by (simp add: mask_eq_exp_minus_1)
qed

lemma dp_path_bound:
  assumes n: "1 \<le> n"
    and q: "q \<noteq> []" "hd q = 0" "distinct q" "set q \<subseteq> {..<n}"
  shows "get2 (fst (dp_fill cities E n)) (mask_of q) (last q) \<le> chain E (map ((!) cities) q)"
  using q
proof (induction q rule: rev_induct)
  case Nil
  then show ?case by simp
next
  case (snoc j xs)
  let ?dp = "fst (dp_fill cities E n)"
  show ?case
  proof (cases "xs = []")
    case True
    then have "j = 0" using snoc.prems(2) by simp
    then have "mask_of (xs @ [j]) = 1" using True by (simp add: mask_of_def)
    then show ?thesis
      using True \<open>j = 0\<close> dp_fill_props(2) [OF n, of cities E] by (simp add: zero_weight_def)
  next
    case False
    let ?M = "mask_of xs"
    let ?l = "last xs"
    have hd: "hd xs = 0" using snoc.prems(2) False by simp
    have dx: "distinct xs" and sx: "set xs \<subseteq> {..<n}" and jn: "j < n" and jx: "j \<notin> set xs"
      using snoc.prems(3,4) by auto
    have ih: "get2 ?dp ?M ?l \<le> chain E (map ((!) cities) xs)"
      using snoc.IH [OF False hd dx sx] .
    have "0 \<in> set xs" using hd False by (metis hd_in_set)
    then have "bit ?M 0" by (simp add: bit_mask_of)
    then have M1: "1 \<le> ?M" by (cases "?M = 0") auto
    have Mn: "?M < 2 ^ n" using sx by (rule mask_of_less)
    have ln: "?l < n" using sx last_in_set [OF False] by blast
    have bl: "bit ?M ?l" using False by (simp add: bit_mask_of)
    have nb: "\<not> bit ?M j" using jx by (simp add: bit_mask_of)
    have "relaxed n cities E ?dp ?M ?l"
      using dp_fill_props(3) [OF n, of cities E] M1 Mn ln bl by blast
    then have "get2 ?dp (or ?M (2 ^ j)) j
        \<le> get2 ?dp ?M ?l + get_distance E (cities ! ?l) (cities ! j)"
      using jn nb by (simp add: relaxed_def)
    also have "\<dots> \<le> chain E (map ((!) cities) xs) + get_distance E (cities ! ?l) (cities ! j)"
      using ih by (rule add_right_mono)
    also have "\<dots> = chain E (map ((!) cities) (xs @ [j]))"
      using False by (simp add: chain_append last_map)
    finally show ?thesis
      by (simp add: mask_of_snoc)
  qed
qed

lemma best_step_simp:
  "best_step cities E dp full l (bc, bl) =
     (if get2 dp full l + get_distance E (cities ! l) (cities ! 0) < bc
      then (get2 dp full l + get_distance E (cities ! l) (cities ! 0), Some l)
      else (bc, bl))"
  by (simp add: best_step_def Let_def)

lemma fold_best_step:
  assumes "fold (best_step cities E dp full) ls (bc, bl) = (bc', bl')"
  shows "bc' \<le> bc
       \<and> (\<forall>l\<in>set ls. bc' \<le> get2 dp full l + get_distance E (cities ! l) (cities ! 0))
       \<and> ((bl' = bl \<and> bc' = bc) \<or>
          (\<exists>l\<in>set ls. bl' = Some l \<and> get2 dp full l \<noteq> PInf))"
  using assms
proof (induction ls arbitrary: bc bl)
  case Nil
  then show ?case by simp
next
  case (Cons l ls)
  let ?c = "get2 dp full l + get_distance E (cities ! l) (cities ! 0)"
  show ?case
  proof (cases "?c < bc")
    case True
    then have "fold (best_step cities E dp full) ls (?c, Some l) = (bc', bl')"
      using Cons.prems by (simp add: best_step_simp)
    note ih = Cons.IH [OF this]
    have "?c \<noteq> PInf" using True by (cases ?c) auto
    then have "get2 dp full l \<noteq> PInf" by auto
    then show ?thesis using ih True by auto
  next
    case False
    then have "fold (best_step cities E dp full) ls (bc, bl) = (bc', bl')"
      using Cons.prems by (simp add: best_step_simp)
    note ih = Cons.IH [OF this]
    then show ?thesis using False by auto
  qed
qed

lemma reconstruct_total:
  assumes "dp_inv n (dp, parent)"
  shows "M < 2 ^ n \<Longrightarrow> j < n \<Longrightarrow> get2 dp M j \<noteq> PInf
     \<Longrightarrow> \<exists>p. reconstruct cities parent M (Some j) acc = Some (Inr p)"
proof (induction M arbitrary: j acc rule: less_induct)
  case (less M)
  show ?case
  proof (cases "j = 0")
    case True
    then show ?thesis by (subst reconstruct.simps) simp
  next
    case False
    have "linked n dp parent" using assms by (simp add: dp_inv_def)
    then have "(M = 1 \<and> j = 0) \<or>
        (bit M j \<and> (\<exists>l<n. get2 parent M j = Some l \<and> get2 dp (xor M (2 ^ j)) l \<noteq> PInf))"
      unfolding linked_def using less.prems by blast
    then obtain l where b: "bit M j" and l: "l < n" "get2 parent M j = Some l"
      "get2 dp (xor M (2 ^ j)) l \<noteq> PInf"
      using False by auto
    have lt: "xor M (2 ^ j) < M" using b by (rule xor_bit_less)
    then have "xor M (2 ^ j) < 2 ^ n" using less.prems(1) by simp
    from less.IH [OF lt this l(1) l(3), of "acc @ [cities ! j]"]
    obtain p where "reconstruct cities parent (xor M (2 ^ j)) (Some l) (acc @ [cities ! j])
        = Some (Inr p)" by blast
    then show ?thesis
      using False l(2) by (subst reconstruct.simps) simp
  qed
qed

lemma dp_upper_bound:
  assumes n: "2 \<le> length cities" "length cities \<le> 20"
    and q: "q \<noteq> []" "hd q = 0" "distinct q" "set q = {..<length cities}"
  shows "\<exists>path c. dynamic_programming cities E si = Some (Inr (path, c))
           \<and> c \<le> calculate_path_cost E (map ((!) cities) q)"
proof -
  let ?n = "length cities"
  obtain dp parent where f: "dp_fill cities E ?n = (dp, parent)"
    by (cases "dp_fill cities E ?n")
  have n1: "1 \<le> ?n" using n(1) by simp
  have inv: "dp_inv ?n (dp, parent)"
    using dp_fill_props(1) [OF n1, of cities E] by (simp add: f)
  let ?full = "(2::nat) ^ ?n - 1"
  obtain bc bl where b: "fold (best_step cities E dp ?full) [0..<?n] (PInf, None) = (bc, bl)"
    by (cases "fold (best_step cities E dp ?full) [0..<?n] (PInf, None)")
  note fb = fold_best_step [OF b]
  have lq: "last q < ?n" using q(4) last_in_set [OF q(1)] by blast
  have "set q \<subseteq> {..<?n}" using q(4) by simp
  from dp_path_bound [OF n1 q(1,2,3) this, of cities E]
  have "get2 dp (mask_of q) (last q) \<le> chain E (map ((!) cities) q)"
    by (simp add: f)
  then have "get2 dp ?full (last q) \<le> chain E (map ((!) cities) q)"
    using mask_of_full [OF q(4)] by simp
  then have "get2 dp ?full (last q) + get_distance E (cities ! last q) (cities ! 0)
      \<le> chain E (map ((!) cities) q) + get_distance E (cities ! last q) (cities ! 0)"
    by (rule add_right_mono)
  also have "\<dots> = calculate_path_cost E (map ((!) cities) q)"
    using q(1,2) by (simp add: cost_chain last_map hd_map)
  finally have "bc \<le> calculate_path_cost E (map ((!) cities) q)"
    using fb [THEN conjunct2, THEN conjunct1] lq by (auto intro: order_trans)
  moreover have "\<exists>path. dynamic_programming cities E si = Some (Inr (path, bc))"
  proof (cases bl)
    case None
    then show ?thesis
      using n b by (simp add: dynamic_programming_def f Let_def)
  next
    case (Some l)
    then have "l < ?n" "get2 dp ?full l \<noteq> PInf"
      using fb [THEN conjunct2, THEN conjunct2] by auto
    from reconstruct_total [OF inv _ this, of cities "[]"]
    obtain p where "reconstruct cities parent ?full (Some l) [] = Some (Inr p)"
      by auto
    then show ?thesis
      using n b Some by (simp add: dynamic_programming_def f Let_def)
  qed
  ultimately show ?thesis by blast
qed

text \<open>\<^verbatim>\<open>list.index\<close>: the first position of an element that occurs in the list.\<close>

fun index_of :: "'a list \<Rightarrow> 'a \<Rightarrow> nat" where
  "index_of [] x = 0"
| "index_of (y # ys) x = (if x = y then 0 else Suc (index_of ys x))"

lemma index_of_less: "x \<in> set xs \<Longrightarrow> index_of xs x < length xs"
  by (induction xs) auto

lemma nth_index_of: "x \<in> set xs \<Longrightarrow> xs ! index_of xs x = x"
  by (induction xs) auto

lemma index_of_nth: "distinct xs \<Longrightarrow> i < length xs \<Longrightarrow> index_of xs (xs ! i) = i"
proof (induction xs arbitrary: i)
  case Nil
  then show ?case by simp
next
  case (Cons y ys)
  then show ?case by (cases i) auto
qed

text \<open>
  C1, amended. For an instance with at most 20 cities on which \<^verbatim>\<open>nearest_neighbor\<close>
  returns a complete tour (as many cities as the input has), \<^verbatim>\<open>dynamic_programming\<close>
  returns, and its cost is at most the cost returned by \<^verbatim>\<open>nearest_neighbor\<close>. For a
  single city this needs the distance from the city to itself not to be negative.
\<close>

theorem dp_cost_le_nn_cost:
  assumes "length cities \<le> 20"
    and "distinct set_iter" and "set set_iter = set cities"
    and "nearest_neighbor cities edges set_iter None = Inr (tour, nn_cost)"
    and "length tour = length cities"
    and "length cities = 1 \<longrightarrow> 0 \<le> get_distance edges (cities ! 0) (cities ! 0)"
  shows "\<exists>path dp_cost. dynamic_programming cities edges set_iter = Some (Inr (path, dp_cost))
           \<and> dp_cost \<le> nn_cost"
proof (cases "cities = []")
  case True
  then show ?thesis
    using assms(4) by (simp add: dynamic_programming_def nearest_neighbor_def)
next
  case False
  from nn_default_props [OF False assms(2,3), of edges] assms(4)
  have c: "nn_cost = calculate_path_cost edges tour" and ne: "tour \<noteq> []"
    and hd: "hd tour = cities ! 0" and dt: "distinct tour" and sub: "set tour \<subseteq> set cities"
    by auto
  show ?thesis
  proof (cases "length cities = 1")
    case True
    then have "length tour = 1" using assms(5) by simp
    then have "tour = [cities ! 0]"
      using hd by (cases tour) auto
    then have "nn_cost = get_distance edges (cities ! 0) (cities ! 0)"
      using c by (simp add: cost_chain)
    then show ?thesis
      using True assms(6) by (simp add: dynamic_programming_def)
  next
    case n1: False
    then have n2: "2 \<le> length cities"
      using False by (cases cities) (auto simp: Suc_le_eq)
    have "card (set tour) = length cities"
      using dt assms(5) by (simp add: distinct_card)
    moreover have "card (set tour) \<le> card (set cities)"
      using sub by (simp add: card_mono)
    ultimately have cc: "card (set cities) = length cities"
      using card_length [of cities] by simp
    then have dc: "distinct cities" by (rule card_distinct)
    have se: "set tour = set cities"
      using sub cc \<open>card (set tour) = length cities\<close> by (simp add: card_subset_eq)
    define q where "q = map (index_of cities) tour"
    have m: "map ((!) cities) q = tour"
      unfolding q_def using sub by (simp add: map_idI nth_index_of subset_iff)
    have q1: "q \<noteq> []" using ne by (simp add: q_def)
    have "index_of cities (cities ! 0) = 0"
      using False by (cases cities) auto
    then have q2: "hd q = 0"
      using ne hd by (simp add: q_def hd_map)
    have "inj_on (index_of cities) (set tour)"
      using sub by (intro inj_on_inverseI [where g = "(!) cities"]) (auto simp: nth_index_of)
    then have q3: "distinct q"
      using dt by (simp add: q_def distinct_map)
    have q4: "set q = {..<length cities}"
    proof
      show "set q \<subseteq> {..<length cities}"
        using sub by (auto simp: q_def index_of_less)
      show "{..<length cities} \<subseteq> set q"
      proof
        fix i assume "i \<in> {..<length cities}"
        then have i: "i < length cities" by simp
        then have "cities ! i \<in> set tour" using se by simp
        then have "index_of cities (cities ! i) \<in> set q" by (simp add: q_def)
        then show "i \<in> set q" using index_of_nth [OF dc i] by simp
      qed
    qed
    from dp_upper_bound [OF n2 assms(1) q1 q2 q3 q4, of edges set_iter]
    show ?thesis by (simp add: m c)
  qed
qed

text \<open>
  C9. For every instance with more than 20 cities, \<^verbatim>\<open>dynamic_programming\<close> returns
  exactly what \<^verbatim>\<open>nearest_neighbor\<close> returns on the same instance.
\<close>

theorem dp_delegates_above_ceiling:
  assumes "20 < length cities"
  shows "dynamic_programming cities edges set_iter
       = Some (nearest_neighbor cities edges set_iter None)"
  using assms by (simp add: dynamic_programming_def)

text \<open>
  Two instances: a single edge between cities 0 and 1, and four cities on which the
  greedy tour (cost 13) is not optimal (cost 6).
\<close>

definition pair_edges :: "nat edges" where
  "pair_edges = map_of [((0, 1), Fin 1), ((1, 0), Fin 1)]"

definition kite_edges :: "nat edges" where
  "kite_edges = map_of
     [((0, 1), Fin 1), ((1, 0), Fin 1), ((1, 2), Fin 1), ((2, 1), Fin 1),
      ((2, 3), Fin 1), ((3, 2), Fin 1), ((3, 0), Fin 10), ((0, 3), Fin 10),
      ((0, 2), Fin 2), ((2, 0), Fin 2), ((1, 3), Fin 2), ((3, 1), Fin 2)]"

text \<open>
  C1, as stated, fails: with three cities and the single edge 0-1 (weight 1, both
  directions), \<^verbatim>\<open>nearest_neighbor\<close> stops after two cities and returns the finite cost 2
  of the partial tour, while \<^verbatim>\<open>dynamic_programming\<close> finds no tour through all three
  cities and returns the cost \<^verbatim>\<open>inf\<close>.
\<close>

theorem dp_cost_exceeds_partial_nn_cost:
  "dynamic_programming [0, 1, 2] pair_edges [0, 1, 2] = Some (Inr ([], PInf))
   \<and> nearest_neighbor [0, 1, 2] pair_edges [0, 1, 2] None = Inr ([0, 1], Fin 2)
   \<and> \<not> PInf \<le> Fin 2"
  by code_simp


theorem dp_delegates_above_ceiling_witness:
  "dynamic_programming [0..<21] pair_edges [0..<21]
     = Some (nearest_neighbor [0..<21] pair_edges [0..<21] None)"
  using dp_delegates_above_ceiling [of "[0..<21]" pair_edges "[0..<21]"] by simp

theorem dp_cost_le_nn_cost_witness:
  "dynamic_programming [0, 1, 2, 3] kite_edges [0, 1, 2, 3] = Some (Inr ([0, 2, 3, 1], Fin 6))
   \<and> nearest_neighbor [0, 1, 2, 3] kite_edges [0, 1, 2, 3] None = Inr ([0, 1, 2, 3], Fin 13)
   \<and> Fin 6 \<le> Fin 13"
proof -
  have a: "nearest_neighbor [0, 1, 2, 3] kite_edges [0, 1, 2, 3] None
      = Inr ([0, 1, 2, 3], Fin 13)"
    by code_simp
  have d: "dynamic_programming [0, 1, 2, 3] kite_edges [0, 1, 2, 3]
      = Some (Inr ([0, 2, 3, 1], Fin 6))"
    by code_simp
  have h: "length [0, 1, 2, 3::nat] \<le> 20" "distinct [0, 1, 2, 3::nat]"
    "set [0, 1, 2, 3::nat] = set [0, 1, 2, 3]"
    by simp_all
  have h5: "length [0, 1, 2, 3::nat] = length [0, 1, 2, 3::nat]" by simp
  have h6: "length [0, 1, 2, 3::nat] = 1 \<longrightarrow>
      0 \<le> get_distance kite_edges ([0, 1, 2, 3] ! 0) ([0, 1, 2, 3] ! 0)"
    by simp
  from dp_cost_le_nn_cost [OF h a h5 h6]
  have "Fin 6 \<le> Fin 13" unfolding d by blast
  then show ?thesis using a d by blast
qed

section \<open>Circuit solver\<close>

text \<open>
  \<^verbatim>\<open>CircuitComponent\<close>: two node ids, a value and a type. The type is the string
  \<^verbatim>\<open>'resistor'\<close>, \<^verbatim>\<open>'voltage_source'\<close> or \<^verbatim>\<open>'current_source'\<close>; the solver ignores a
  component of the third kind. The field \<^verbatim>\<open>current\<close>, which the solver overwrites, is
  reported in the branch results below. The name \<^verbatim>\<open>comp\<close> of the source is written
  \<open>cpt\<close>, and \<^verbatim>\<open>value\<close> is written \<open>comp_value\<close>. Numbers are exact reals.
\<close>

datatype comp_type = Resistor | VoltageSource | CurrentSource

record component =
  node1 :: int
  node2 :: int
  comp_value :: real
  ctype :: comp_type

type_synonym linear_system = "real list list \<times> real list"

text \<open>\<^verbatim>\<open>G[i][j] += x\<close> and \<^verbatim>\<open>G[i][j] -= x\<close>.\<close>

definition add2 :: "real list list \<Rightarrow> nat \<Rightarrow> nat \<Rightarrow> real \<Rightarrow> real list list" where
  "add2 G i j x = set2 G i j (get2 G i j + x)"

definition sub2 :: "real list list \<Rightarrow> nat \<Rightarrow> nat \<Rightarrow> real \<Rightarrow> real list list" where
  "sub2 G i j x = set2 G i j (get2 G i j - x)"

text \<open>
  The three assignments \<^verbatim>\<open>G[idx] = np.zeros(n)\<close>, \<^verbatim>\<open>G[idx][idx] = 1.0\<close> and
  \<^verbatim>\<open>I[idx] = comp.value\<close>.
\<close>

definition fix_voltage :: "nat \<Rightarrow> nat \<Rightarrow> real \<Rightarrow> linear_system \<Rightarrow> linear_system" where
  "fix_voltage n idx v sys =
     (case sys of (G, I) \<Rightarrow> (set2 (G[idx := replicate n 0]) idx idx 1, I[idx := v]))"

text \<open>
  The resistor branch of the loop body, with its two \<^verbatim>\<open>if\<close> statements in the order of
  the source.
\<close>

definition stamp_resistor :: "int \<Rightarrow> int list \<Rightarrow> int \<Rightarrow> int \<Rightarrow> real \<Rightarrow> real list list \<Rightarrow> real list list" where
  "stamp_resistor ground node_list n1 n2 conductance G =
     (let G1 =
        (if n1 \<noteq> ground \<and> n1 \<in> set node_list then
           let idx1 = index_of node_list n1;
               Ga = add2 G idx1 idx1 conductance
           in if n2 \<noteq> ground \<and> n2 \<in> set node_list then
                let idx2 = index_of node_list n2;
                    Gb = sub2 Ga idx1 idx2 conductance;
                    Gc = sub2 Gb idx2 idx1 conductance
                in add2 Gc idx2 idx2 conductance
              else Ga
         else G)
      in if n2 \<noteq> ground \<and> n2 \<in> set node_list \<and> n1 = ground then
           let idx2 = index_of node_list n2 in add2 G1 idx2 idx2 conductance
         else G1)"

text \<open>
  The body of the loop \<^verbatim>\<open>for comp in self.components\<close>. Python raises
  \<^verbatim>\<open>ZeroDivisionError\<close> for \<^verbatim>\<open>1.0 / comp.value\<close> when the value is zero. A voltage source
  with no endpoint at ground matches neither test and leaves the system as it is.
\<close>

definition stamp :: "int \<Rightarrow> int list \<Rightarrow> component \<Rightarrow> linear_system \<Rightarrow> error + linear_system" where
  "stamp ground node_list cpt sys =
     (let n1 = node1 cpt; n2 = node2 cpt; n = length node_list
      in case ctype cpt of
           Resistor \<Rightarrow>
             if comp_value cpt = 0 then Inl ZeroDivisionError
             else
               let conductance = 1 / comp_value cpt
               in Inr (stamp_resistor ground node_list n1 n2 conductance (fst sys), snd sys)
         | VoltageSource \<Rightarrow>
             if n1 = ground \<and> n2 \<in> set node_list then
               Inr (fix_voltage n (index_of node_list n2) (comp_value cpt) sys)
             else if n2 = ground \<and> n1 \<in> set node_list then
               Inr (fix_voltage n (index_of node_list n1) (comp_value cpt) sys)
             else Inr sys
         | CurrentSource \<Rightarrow> Inr sys)"

text \<open>The loop over the components, in list order; an exception ends it.\<close>

fun assemble :: "int \<Rightarrow> int list \<Rightarrow> component list \<Rightarrow> linear_system \<Rightarrow> error + linear_system" where
  "assemble ground node_list [] sys = Inr sys"
| "assemble ground node_list (cpt # cpts) sys =
     (case stamp ground node_list cpt sys of
        Inl e \<Rightarrow> Inl e
      | Inr sys' \<Rightarrow> assemble ground node_list cpts sys')"

text \<open>
  Modelled from the spec: the linear solve is \<^verbatim>\<open>numpy.linalg.solve\<close>, a library routine
  that is not part of the repository. The spec describes it as a dense direct solve
  (Gaussian elimination with partial pivoting) that fails with \<open>Singular\<close> on a zero
  pivot. \<open>pivot_index\<close> is the first row whose leading entry is largest in absolute value;
  \<open>gauss\<close> works on rows extended by the right-hand side, swaps the pivot row to the top,
  eliminates the first column from the other rows, solves the smaller system and
  substitutes back. Arithmetic is exact.
\<close>

fun pivot_index :: "real list list \<Rightarrow> nat" where
  "pivot_index [] = 0"
| "pivot_index [r] = 0"
| "pivot_index (r # rs) =
     (let p = pivot_index rs in if \<bar>hd r\<bar> < \<bar>hd (rs ! p)\<bar> then Suc p else 0)"

definition eliminate :: "real list \<Rightarrow> real list \<Rightarrow> real list" where
  "eliminate prow row = map2 (\<lambda>x y. x - (hd row / hd prow) * y) (tl row) (tl prow)"

fun gauss :: "nat \<Rightarrow> real list list \<Rightarrow> real list option" where
  "gauss 0 rows = Some []"
| "gauss (Suc k) rows =
     (let p = pivot_index rows;
          swapped = (rows[p := rows ! 0])[0 := rows ! p];
          prow = hd swapped
      in if hd prow = 0 then None
         else
           case gauss k (map (eliminate prow) (tl swapped)) of
             None \<Rightarrow> None
           | Some xs \<Rightarrow>
               Some ((last prow - sum_list (map2 (*) (butlast (tl prow)) xs)) / hd prow # xs))"

definition solve :: "real list list \<Rightarrow> real list \<Rightarrow> real list option" where
  "solve G I = gauss (length G) (map2 (\<lambda>row b. row @ [b]) G I)"

text \<open>
  The ways \<^verbatim>\<open>calculate_circuit\<close> can end without results, named as in the spec's error
  taxonomy: the warning for fewer than two nodes or no component, the error for a ground
  text that is not an integer, the error for a ground that is not a node, the warning for
  no node other than ground, the error for \<^verbatim>\<open>LinAlgError\<close>, and an exception that the
  function does not catch.
\<close>

datatype failure =
  InfeasibleInput | InvalidNumericInput | InvalidReference | NoUnknownNode | Singular
  | Uncaught error

datatype branch = ResistorBranch real real real | SourceBranch real | OtherBranch

record solution =
  node_voltages :: "(int \<times> real) list"
  branches :: "branch list"

text \<open>
  One round of the loop that reports the components. The two dictionary reads come
  first and raise \<^verbatim>\<open>KeyError\<close> for a node that has no voltage. A resistor reports the
  signed current stored in \<^verbatim>\<open>comp.current\<close>, its absolute value and the power.
\<close>

definition branch_result :: "(int \<rightharpoonup> real) \<Rightarrow> component \<Rightarrow> error + branch" where
  "branch_result voltage_dict cpt =
     (case voltage_dict (node1 cpt) of
        None \<Rightarrow> Inl KeyError
      | Some v1 \<Rightarrow>
          (case voltage_dict (node2 cpt) of
             None \<Rightarrow> Inl KeyError
           | Some v2 \<Rightarrow>
               (case ctype cpt of
                  Resistor \<Rightarrow>
                    let current = (v1 - v2) / comp_value cpt
                    in Inr (ResistorBranch current \<bar>current\<bar> (\<bar>current\<bar> ^ 2 * comp_value cpt))
                | VoltageSource \<Rightarrow> Inr (SourceBranch (comp_value cpt))
                | CurrentSource \<Rightarrow> Inr OtherBranch)))"

fun branch_results :: "(int \<rightharpoonup> real) \<Rightarrow> component list \<Rightarrow> error + branch list" where
  "branch_results voltage_dict [] = Inr []"
| "branch_results voltage_dict (cpt # cpts) =
     (case branch_result voltage_dict cpt of
        Inl e \<Rightarrow> Inl e
      | Inr b \<Rightarrow>
          (case branch_results voltage_dict cpts of
             Inl e \<Rightarrow> Inl e
           | Inr bs \<Rightarrow> Inr (b # bs)))"

text \<open>\<^verbatim>\<open>node_list\<close>: the node ids other than ground, sorted.\<close>

definition unknown_nodes :: "int list \<Rightarrow> int \<Rightarrow> int list" where
  "unknown_nodes nodes ground = sort (filter (\<lambda>n. n \<noteq> ground) nodes)"

definition zero_system :: "nat \<Rightarrow> linear_system" where
  "zero_system n = (replicate n (replicate n 0), replicate n 0)"

text \<open>
  \<^verbatim>\<open>calculate_circuit\<close>. \<open>nodes\<close> are the keys of \<^verbatim>\<open>self.nodes\<close>, \<open>ground_input\<close> is the
  result of \<^verbatim>\<open>int(self.ground_var.get())\<close>, \<open>None\<close> when that raises \<^verbatim>\<open>ValueError\<close>.
\<close>

definition calculate_circuit ::
  "int list \<Rightarrow> component list \<Rightarrow> int option \<Rightarrow> failure + solution" where
  "calculate_circuit nodes components ground_input =
     (if length nodes < 2 \<or> components = [] then Inl InfeasibleInput
      else
        case ground_input of
          None \<Rightarrow> Inl InvalidNumericInput
        | Some ground \<Rightarrow>
            if ground \<notin> set nodes then Inl InvalidReference
            else
              let node_list = unknown_nodes nodes ground;
                  n = length node_list
              in if n = 0 then Inl NoUnknownNode
                 else
                   case assemble ground node_list components (zero_system n) of
                     Inl e \<Rightarrow> Inl (Uncaught e)
                   | Inr (G, I) \<Rightarrow>
                       (case solve G I of
                          None \<Rightarrow> Inl Singular
                        | Some V \<Rightarrow>
                            let voltage_list = (ground, 0) # zip node_list V
                            in case branch_results (map_of voltage_list) components of
                                 Inl e \<Rightarrow> Inl (Uncaught e)
                               | Inr bs \<Rightarrow>
                                   Inr \<lparr>node_voltages = voltage_list, branches = bs\<rparr>))"

text \<open>The constructor of \<^verbatim>\<open>CircuitComponent\<close>.\<close>

definition CircuitComponent :: "int \<Rightarrow> int \<Rightarrow> real \<Rightarrow> comp_type \<Rightarrow> component" where
  "CircuitComponent n1 n2 v t = \<lparr>node1 = n1, node2 = n2, comp_value = v, ctype = t\<rparr>"

lemma pivot_index_less: "rows \<noteq> [] \<Longrightarrow> pivot_index rows < length rows"
  by (induction rows rule: pivot_index.induct) (auto simp: Let_def)

lemma length_eliminate:
  "length prow = Suc m \<Longrightarrow> length row = Suc m \<Longrightarrow> length (eliminate prow row) = m"
  by (simp add: eliminate_def)

lemma eliminate_zero_row:
  assumes "length prow = Suc m" "length z = Suc m" "\<forall>i<k. z ! i = 0" "0 < k" "k \<le> m"
  shows "\<forall>i<k - 1. eliminate prow z ! i = 0"
proof (intro allI impI)
  fix i assume i: "i < k - 1"
  have z0: "hd z = 0" using assms(2,3,4) by (cases z) auto
  have "Suc i < k" using i by simp
  then have zi: "z ! Suc i = 0" using assms(3) by simp
  have il: "i < length (tl z)" "i < length (tl prow)"
    using i assms(1,2,5) by simp_all
  then have "eliminate prow z ! i = tl z ! i - (hd z / hd prow) * (tl prow ! i)"
    by (simp add: eliminate_def)
  also have "tl z ! i = z ! Suc i"
    using il(1) by (simp add: nth_tl)
  finally show "eliminate prow z ! i = 0"
    using z0 zi by simp
qed

lemma gauss_zero_row:
  assumes "length rows = Suc k" "\<forall>r\<in>set rows. length r = Suc (Suc k)"
    and "\<exists>z\<in>set rows. \<forall>i<Suc k. z ! i = 0"
  shows "gauss (Suc k) rows = None"
  using assms
proof (induction k arbitrary: rows)
  case 0
  then obtain z where rows: "rows = [z]" by (cases rows) auto
  then have "z ! 0 = 0" using "0.prems"(3) by simp
  moreover have "z \<noteq> []" using "0.prems"(2) rows by auto
  ultimately have "hd z = 0" by (simp add: hd_conv_nth)
  then show ?case by (simp add: rows)
next
  case (Suc k)
  define p where "p = pivot_index rows"
  define swapped where "swapped = (rows[p := rows ! 0])[0 := rows ! p]"
  define prow where "prow = hd swapped"
  have ne: "rows \<noteq> []" using Suc.prems(1) by auto
  have p: "p < length rows" unfolding p_def using ne by (rule pivot_index_less)
  have z0: "0 < length rows" using ne by simp
  have ms: "mset swapped = mset rows"
    unfolding swapped_def using mset_swap [OF z0 p] by simp
  then have ss: "set swapped = set rows" by (rule mset_eq_setD)
  have ls: "length swapped = Suc (Suc k)"
    using Suc.prems(1) by (simp add: swapped_def)
  then have sw: "swapped = prow # tl swapped"
    unfolding prow_def by (cases swapped) auto
  have g: "gauss (Suc (Suc k)) rows =
      (if hd prow = 0 then None
       else case gauss (Suc k) (map (eliminate prow) (tl swapped)) of
              None \<Rightarrow> None
            | Some xs \<Rightarrow>
                Some ((last prow - sum_list (map2 (*) (butlast (tl prow)) xs)) / hd prow # xs))"
    by (simp only: gauss.simps(2) [of "Suc k" rows] Let_def p_def swapped_def prow_def)
  show ?case
  proof (cases "hd prow = 0")
    case True
    then show ?thesis by (simp only: g if_True refl)
  next
    case False
    obtain z where z: "z \<in> set rows" "\<forall>i<Suc (Suc k). z ! i = 0"
      using Suc.prems(3) by blast
    have lz: "length z = Suc (Suc (Suc k))" using z(1) Suc.prems(2) by simp
    have lp: "length prow = Suc (Suc (Suc k))"
      using sw ss Suc.prems(2) by (metis list.set_intros(1))
    have "hd z = 0" using z(2) lz by (cases z) auto
    then have "z \<noteq> prow" using False by auto
    then have zt: "z \<in> set (tl swapped)"
      using z(1) ss sw by (metis set_ConsD)
    let ?rows' = "map (eliminate prow) (tl swapped)"
    have a: "length ?rows' = Suc k" using ls by simp
    have b: "\<forall>r\<in>set ?rows'. length r = Suc (Suc k)"
    proof
      fix r assume "r \<in> set ?rows'"
      then obtain r0 where r0: "r0 \<in> set (tl swapped)" "r = eliminate prow r0" by auto
      then have "r0 \<in> set rows" using ss sw by (metis list.set_intros(2))
      then have "length r0 = Suc (Suc (Suc k))" using Suc.prems(2) by simp
      then show "length r = Suc (Suc k)"
        using lp r0(2) by (simp add: length_eliminate)
    qed
    have "\<forall>i<Suc (Suc k) - 1. eliminate prow z ! i = 0"
      using lp lz z(2) by (rule eliminate_zero_row) simp_all
    then have c: "\<exists>z'\<in>set ?rows'. \<forall>i<Suc k. z' ! i = 0"
      using zt by auto
    have h: "gauss (Suc k) ?rows' = None"
      using a b c by (rule Suc.IH)
    show ?thesis by (simp only: g False if_False h option.case)
  qed
qed

subsection \<open>Assembly leaves untouched rows alone\<close>

text \<open>\<open>square n G\<close>: the matrix has \<open>n\<close> rows of \<open>n\<close> entries.\<close>

definition square :: "nat \<Rightarrow> 'a list list \<Rightarrow> bool" where
  "square n G \<longleftrightarrow> length G = n \<and> (\<forall>row\<in>set G. length row = n)"

lemma square_update:
  assumes "square n G" "length row = n"
  shows "square n (G[i := row])"
  using assms set_update_subset_insert [of G i row]
  unfolding square_def by auto

lemma square_set2:
  assumes "square n G"
  shows "square n (set2 G i j v)"
proof (cases "i < length G")
  case True
  then have "G ! i \<in> set G" by simp
  then have "length ((G ! i)[j := v]) = n"
    using assms unfolding square_def by simp
  then show ?thesis
    unfolding set2_def using assms by (rule square_update[rotated])
next
  case False
  then show ?thesis using assms by (simp add: set2_def list_update_beyond)
qed

lemma row_set2: "r \<noteq> i \<Longrightarrow> set2 G i j v ! r = G ! r"
  by (simp add: set2_def)

lemma square_add2: "square n G \<Longrightarrow> square n (add2 G i j x)"
  by (simp add: add2_def square_set2)

lemma square_sub2: "square n G \<Longrightarrow> square n (sub2 G i j x)"
  by (simp add: sub2_def square_set2)

lemma row_add2: "r \<noteq> i \<Longrightarrow> add2 G i j x ! r = G ! r"
  by (simp add: add2_def row_set2)

lemma row_sub2: "r \<noteq> i \<Longrightarrow> sub2 G i j x ! r = G ! r"
  by (simp add: sub2_def row_set2)

lemma index_of_eq:
  "x \<in> set xs \<Longrightarrow> y \<in> set xs \<Longrightarrow> index_of xs x = index_of xs y \<Longrightarrow> x = y"
  by (metis nth_index_of)

lemma stamp_resistor_square:
  "square n G \<Longrightarrow> square n (stamp_resistor ground node_list n1 n2 g G)"
  by (simp add: stamp_resistor_def Let_def square_add2 square_sub2)

lemma stamp_resistor_row:
  assumes "x \<in> set node_list" "n1 \<noteq> x" "n2 \<noteq> x"
  shows "stamp_resistor ground node_list n1 n2 g G ! index_of node_list x
       = G ! index_of node_list x"
proof -
  have a: "index_of node_list x \<noteq> index_of node_list n1" if "n1 \<in> set node_list"
    using index_of_eq [OF assms(1) that] assms(2) by auto
  have b: "index_of node_list x \<noteq> index_of node_list n2" if "n2 \<in> set node_list"
    using index_of_eq [OF assms(1) that] assms(3) by auto
  show ?thesis
    using a b by (simp add: stamp_resistor_def Let_def row_add2 row_sub2)
qed

lemma fix_voltage_props:
  assumes "square n G" "length I = n"
  shows "square n (fst (fix_voltage n idx v (G, I)))"
    and "length (snd (fix_voltage n idx v (G, I))) = n"
    and "r \<noteq> idx \<Longrightarrow> fst (fix_voltage n idx v (G, I)) ! r = G ! r"
  using assms by (simp_all add: fix_voltage_def square_set2 square_update row_set2)

lemma stamp_frame:
  assumes sq: "square n G" "length I = n" and n: "n = length node_list"
    and x: "x \<in> set node_list" "node1 cpt \<noteq> x" "node2 cpt \<noteq> x"
    and nz: "ctype cpt = Resistor \<longrightarrow> comp_value cpt \<noteq> 0"
  shows "\<exists>G' I'. stamp ground node_list cpt (G, I) = Inr (G', I')
           \<and> square n G' \<and> length I' = n
           \<and> G' ! index_of node_list x = G ! index_of node_list x"
proof (cases "ctype cpt")
  case Resistor
  then show ?thesis
    using sq nz x by (simp add: stamp_def Let_def stamp_resistor_square stamp_resistor_row)
next
  case VoltageSource
  have a: "index_of node_list x \<noteq> index_of node_list (node1 cpt)" if "node1 cpt \<in> set node_list"
    using index_of_eq [OF x(1) that] x(2) by auto
  have b: "index_of node_list x \<noteq> index_of node_list (node2 cpt)" if "node2 cpt \<in> set node_list"
    using index_of_eq [OF x(1) that] x(3) by auto
  obtain G' I' where r: "stamp ground node_list cpt (G, I) = Inr (G', I')"
    and c: "(G', I') = (G, I)
        \<or> (node2 cpt \<in> set node_list
            \<and> (G', I') = fix_voltage n (index_of node_list (node2 cpt)) (comp_value cpt) (G, I))
        \<or> (node1 cpt \<in> set node_list
            \<and> (G', I') = fix_voltage n (index_of node_list (node1 cpt)) (comp_value cpt) (G, I))"
    using VoltageSource n
    by (cases "stamp ground node_list cpt (G, I)") (auto simp: stamp_def Let_def split: if_splits)
  from c show ?thesis
  proof (elim disjE conjE)
    assume "(G', I') = (G, I)"
    then show ?thesis using r sq by simp
  next
    assume m: "node2 cpt \<in> set node_list"
      and e: "(G', I') = fix_voltage n (index_of node_list (node2 cpt)) (comp_value cpt) (G, I)"
    from fix_voltage_props(1,2) [OF sq, where idx = "index_of node_list (node2 cpt)"
        and v = "comp_value cpt"]
      fix_voltage_props(3) [OF sq, where idx = "index_of node_list (node2 cpt)"
        and v = "comp_value cpt" and r = "index_of node_list x"]
      b [OF m]
    show ?thesis unfolding r e [symmetric] by simp
  next
    assume m: "node1 cpt \<in> set node_list"
      and e: "(G', I') = fix_voltage n (index_of node_list (node1 cpt)) (comp_value cpt) (G, I)"
    from fix_voltage_props(1,2) [OF sq, where idx = "index_of node_list (node1 cpt)"
        and v = "comp_value cpt"]
      fix_voltage_props(3) [OF sq, where idx = "index_of node_list (node1 cpt)"
        and v = "comp_value cpt" and r = "index_of node_list x"]
      a [OF m]
    show ?thesis unfolding r e [symmetric] by simp
  qed
next
  case CurrentSource
  then show ?thesis using sq by (simp add: stamp_def)
qed

lemma assemble_frame:
  assumes "square n G" "length I = n" and "n = length node_list"
    and "x \<in> set node_list" and "\<forall>c\<in>set cpts. node1 c \<noteq> x \<and> node2 c \<noteq> x"
    and "\<forall>c\<in>set cpts. ctype c = Resistor \<longrightarrow> comp_value c \<noteq> 0"
  shows "\<exists>G' I'. assemble ground node_list cpts (G, I) = Inr (G', I')
           \<and> square n G' \<and> length I' = n
           \<and> G' ! index_of node_list x = G ! index_of node_list x"
  using assms
proof (induction cpts arbitrary: G I)
  case Nil
  then show ?case by simp
next
  case (Cons c cs)
  have c1: "node1 c \<noteq> x" "node2 c \<noteq> x" "ctype c = Resistor \<longrightarrow> comp_value c \<noteq> 0"
    using Cons.prems(5,6) by simp_all
  from stamp_frame [OF Cons.prems(1,2,3,4) c1, of ground]
  obtain G1 I1 where s: "stamp ground node_list c (G, I) = Inr (G1, I1)"
    and sq1: "square n G1" "length I1 = n"
    and r1: "G1 ! index_of node_list x = G ! index_of node_list x"
    by blast
  have rest: "\<forall>c\<in>set cs. node1 c \<noteq> x \<and> node2 c \<noteq> x"
    "\<forall>c\<in>set cs. ctype c = Resistor \<longrightarrow> comp_value c \<noteq> 0"
    using Cons.prems(5,6) by simp_all
  from Cons.IH [OF sq1 Cons.prems(3,4) rest]
  obtain G' I' where "assemble ground node_list cs (G1, I1) = Inr (G', I')"
    "square n G'" "length I' = n" "G' ! index_of node_list x = G1 ! index_of node_list x"
    by blast
  then show ?case using s r1 by simp
qed

lemma solve_zero_row:
  assumes "square n G" "length I = n" "idx < n" "G ! idx = replicate n 0"
  shows "solve G I = None"
proof -
  obtain k where k: "n = Suc k" using assms(3) by (cases n) auto
  let ?rows = "map2 (\<lambda>row b. row @ [b]) G I"
  have lg: "length G = n" and rl: "\<forall>row\<in>set G. length row = n"
    using assms(1) by (simp_all add: square_def)
  have a: "length ?rows = Suc k" using lg assms(2) k by simp
  have b: "\<forall>r\<in>set ?rows. length r = Suc (Suc k)"
  proof
    fix r assume "r \<in> set ?rows"
    then obtain row b where "(row, b) \<in> set (zip G I)" "r = row @ [b]" by auto
    then show "length r = Suc (Suc k)"
      using rl k by (auto dest: set_zip_leftD)
  qed
  have "?rows ! idx = replicate n 0 @ [I ! idx]"
    using assms(2,3,4) lg by simp
  moreover have "?rows ! idx \<in> set ?rows"
    using a assms(3) k by (intro nth_mem) simp
  moreover have "\<forall>i<n. (replicate n 0 @ [I ! idx]) ! i = (0::real)"
    by (simp add: nth_append)
  then have "\<forall>i<Suc k. (replicate n 0 @ [I ! idx]) ! i = (0::real)"
    unfolding k .
  ultimately have c: "\<exists>z\<in>set ?rows. \<forall>i<Suc k. z ! i = 0"
    by metis
  show ?thesis
    unfolding solve_def lg k using a b c by (rule gauss_zero_row)
qed

lemma stamp_source_row:
  assumes "ctype cpt = VoltageSource" "node1 cpt = ground" "node2 cpt \<in> set node_list"
    and "square n G" "length I = n" "n = length node_list"
    and "stamp ground node_list cpt (G, I) = Inr (G', I')"
  shows "G' ! index_of node_list (node2 cpt) = (replicate n 0)[index_of node_list (node2 cpt) := 1]
       \<and> I' ! index_of node_list (node2 cpt) = comp_value cpt"
proof -
  let ?i = "index_of node_list (node2 cpt)"
  have i: "?i < n" using assms(3,6) by (simp add: index_of_less)
  have "(G', I') = fix_voltage n ?i (comp_value cpt) (G, I)"
    using assms(1,2,3,6,7) by (simp add: stamp_def Let_def)
  then show ?thesis
    using i assms(4,5) by (simp add: fix_voltage_def set2_def square_def)
qed

text \<open>
  C10. A voltage source with neither endpoint at the ground node leaves the conductance
  matrix and the current vector exactly as they were.
\<close>

theorem floating_source_skipped:
  assumes "ctype cpt = VoltageSource" and "node1 cpt \<noteq> ground" and "node2 cpt \<noteq> ground"
  shows "stamp ground node_list cpt (G, I) = Inr (G, I)"
  using assms by (simp add: stamp_def Let_def)

theorem floating_source_skipped_witness:
  "stamp 0 [1, 2] (CircuitComponent 1 2 5 VoltageSource) ([[1 / 10, 0], [0, 1 / 20]], [0, 0])
     = Inr ([[1 / 10, 0], [0, 1 / 20]], [0, 0])"
  using floating_source_skipped
    [of "CircuitComponent 1 2 5 VoltageSource" 0 "[1, 2]" "[[1 / 10, 0], [0, 1 / 20]]" "[0, 0]"]
  by (simp add: CircuitComponent_def)

text \<open>
  C5 holds when the resistor of 10 ohm is listed before the source of 5 V, in either
  orientation of each: the voltage of node 1 is 5, the resistor current has magnitude 1/2
  and the power is 5/2. It fails when the source is listed before the resistor: the
  resistor's conductance is then added to the row that the source has fixed, and the
  result is the voltage 50/11, a resistor current of magnitude 5/11 and the power 250/121.
\<close>

theorem two_node_scenario:
  "calculate_circuit [0, 1]
     [CircuitComponent 0 1 10 Resistor, CircuitComponent 0 1 5 VoltageSource] (Some 0)
     = Inr \<lparr>node_voltages = [(0, 0), (1, 5)],
            branches = [ResistorBranch (- (1 / 2)) (1 / 2) (5 / 2), SourceBranch 5]\<rparr>
   \<and> calculate_circuit [0, 1]
     [CircuitComponent 1 0 10 Resistor, CircuitComponent 0 1 5 VoltageSource] (Some 0)
     = Inr \<lparr>node_voltages = [(0, 0), (1, 5)],
            branches = [ResistorBranch (1 / 2) (1 / 2) (5 / 2), SourceBranch 5]\<rparr>
   \<and> calculate_circuit [0, 1]
     [CircuitComponent 0 1 10 Resistor, CircuitComponent 1 0 5 VoltageSource] (Some 0)
     = Inr \<lparr>node_voltages = [(0, 0), (1, 5)],
            branches = [ResistorBranch (- (1 / 2)) (1 / 2) (5 / 2), SourceBranch 5]\<rparr>
   \<and> calculate_circuit [0, 1]
     [CircuitComponent 1 0 10 Resistor, CircuitComponent 1 0 5 VoltageSource] (Some 0)
     = Inr \<lparr>node_voltages = [(0, 0), (1, 5)],
            branches = [ResistorBranch (1 / 2) (1 / 2) (5 / 2), SourceBranch 5]\<rparr>
   \<and> calculate_circuit [0, 1]
     [CircuitComponent 0 1 5 VoltageSource, CircuitComponent 0 1 10 Resistor] (Some 0)
     = Inr \<lparr>node_voltages = [(0, 0), (1, 50 / 11)],
            branches = [SourceBranch 5, ResistorBranch (- (5 / 11)) (5 / 11) (250 / 121)]\<rparr>
   \<and> calculate_circuit [0, 1]
     [CircuitComponent 0 1 5 VoltageSource, CircuitComponent 1 0 10 Resistor] (Some 0)
     = Inr \<lparr>node_voltages = [(0, 0), (1, 50 / 11)],
            branches = [SourceBranch 5, ResistorBranch (5 / 11) (5 / 11) (250 / 121)]\<rparr>
   \<and> calculate_circuit [0, 1]
     [CircuitComponent 1 0 5 VoltageSource, CircuitComponent 0 1 10 Resistor] (Some 0)
     = Inr \<lparr>node_voltages = [(0, 0), (1, 50 / 11)],
            branches = [SourceBranch 5, ResistorBranch (- (5 / 11)) (5 / 11) (250 / 121)]\<rparr>
   \<and> calculate_circuit [0, 1]
     [CircuitComponent 1 0 5 VoltageSource, CircuitComponent 1 0 10 Resistor] (Some 0)
     = Inr \<lparr>node_voltages = [(0, 0), (1, 50 / 11)],
            branches = [SourceBranch 5, ResistorBranch (5 / 11) (5 / 11) (250 / 121)]\<rparr>"
  by code_simp

text \<open>
  C3 fails when the source comes before a resistor at the same node: the resistor's stamp
  is added to the row that the source has just overwritten. With the source of 5 V listed
  before the resistor of 10 ohm the row of node 1 is \<open>[11/10]\<close> instead of \<open>[1]\<close>, and the
  solved voltage of node 1 is 50/11 instead of 5.
\<close>

theorem source_before_resistor_not_fixed:
  "assemble 0 [1]
     [CircuitComponent 0 1 5 VoltageSource, CircuitComponent 0 1 10 Resistor] (zero_system 1)
     = Inr ([[11 / 10]], [5])
   \<and> calculate_circuit [0, 1]
     [CircuitComponent 0 1 5 VoltageSource, CircuitComponent 0 1 10 Resistor] (Some 0)
     = Inr \<lparr>node_voltages = [(0, 0), (1, 50 / 11)],
            branches = [SourceBranch 5, ResistorBranch (- (5 / 11)) (5 / 11) (250 / 121)]\<rparr>"
  by code_simp

text \<open>
  C7. In a circuit with at least one component, no resistor of zero ohm and the ground
  among its nodes, a non-ground node that no component touches keeps an all-zero matrix
  row, and the solve ends with \<open>Singular\<close>; a ground that is not a node ends with
  \<open>InvalidReference\<close>, a different failure.
\<close>

theorem isolated_node_singular:
  assumes "components \<noteq> []" and "ground \<in> set nodes" and "x \<in> set nodes" and "x \<noteq> ground"
    and "\<forall>c\<in>set components. node1 c \<noteq> x \<and> node2 c \<noteq> x"
    and "\<forall>c\<in>set components. ctype c = Resistor \<longrightarrow> comp_value c \<noteq> 0"
  shows "(\<exists>G I. assemble ground (unknown_nodes nodes ground) components
                  (zero_system (length (unknown_nodes nodes ground))) = Inr (G, I)
            \<and> G ! index_of (unknown_nodes nodes ground) x
                = replicate (length (unknown_nodes nodes ground)) 0)
       \<and> calculate_circuit nodes components (Some ground) = Inl Singular
       \<and> (\<forall>g. g \<notin> set nodes \<longrightarrow> calculate_circuit nodes components (Some g) = Inl InvalidReference)
       \<and> Singular \<noteq> InvalidReference"
proof -
  let ?nl = "unknown_nodes nodes ground"
  let ?n = "length ?nl"
  let ?i = "index_of ?nl x"
  have xn: "x \<in> set ?nl" using assms(3,4) by (simp add: unknown_nodes_def)
  then have i: "?i < ?n" by (rule index_of_less)
  have n0: "?n \<noteq> 0" using xn by auto
  have "card {ground, x} \<le> card (set nodes)"
    using assms(2,3) by (intro card_mono) auto
  then have "2 \<le> card (set nodes)" using assms(4) by simp
  then have len: "2 \<le> length nodes"
    using card_length [of nodes] by simp
  have sq: "square ?n (replicate ?n (replicate ?n (0::real)))"
    by (simp add: square_def)
  from assemble_frame [OF sq _ _ xn assms(5,6), of "replicate ?n 0" ground]
  obtain G I where a: "assemble ground ?nl components (zero_system ?n) = Inr (G, I)"
    and sG: "square ?n G" and lI: "length I = ?n"
    and row: "G ! ?i = replicate ?n (replicate ?n 0) ! ?i"
    by (auto simp: zero_system_def)
  have zr: "G ! ?i = replicate ?n 0" using row i by simp
  have s: "solve G I = None" using sG lI i zr by (rule solve_zero_row)
  have c: "calculate_circuit nodes components (Some ground) = Inl Singular"
    using assms(1,2) len n0 a s by (simp add: calculate_circuit_def Let_def)
  have d: "calculate_circuit nodes components (Some g) = Inl InvalidReference"
    if "g \<notin> set nodes" for g
    using that assms(1) len by (simp add: calculate_circuit_def)
  show ?thesis using a zr c d by auto
qed

theorem isolated_node_singular_witness:
  "calculate_circuit [0, 1, 2]
     [CircuitComponent 0 1 10 Resistor, CircuitComponent 0 1 5 VoltageSource] (Some 0)
     = Inl Singular
   \<and> calculate_circuit [0, 1, 2]
     [CircuitComponent 0 1 10 Resistor, CircuitComponent 0 1 5 VoltageSource] (Some 5)
     = Inl InvalidReference"
proof -
  let ?cs = "[CircuitComponent 0 1 10 Resistor, CircuitComponent 0 1 5 VoltageSource]"
  have h: "?cs \<noteq> []" "(0::int) \<in> set [0, 1, 2]" "(2::int) \<in> set [0, 1, 2]" "(2::int) \<noteq> 0"
    by simp_all
  have h5: "\<forall>c\<in>set ?cs. node1 c \<noteq> 2 \<and> node2 c \<noteq> 2"
    by (simp add: CircuitComponent_def)
  have h6: "\<forall>c\<in>set ?cs. ctype c = Resistor \<longrightarrow> comp_value c \<noteq> 0"
    by (simp add: CircuitComponent_def)
  have g: "(5::int) \<notin> set [0, 1, 2]" by simp
  from isolated_node_singular [OF h h5 h6] g
  show ?thesis by blast
qed

section \<open>Genetic algorithm\<close>

text \<open>
  The calls to Python's \<^verbatim>\<open>random\<close> module are answered by a record of draws, which is
  an argument of the model: \<open>shuffle k\<close> is the permutation produced by the \<open>k\<close>-th call of
  \<^verbatim>\<open>random.shuffle\<close>; for generation \<open>g\<close> and child \<open>k\<close>, \<open>tournament g k 0\<close> and
  \<open>tournament g k 1\<close> are the population indices that \<^verbatim>\<open>random.sample\<close> draws for the two
  parents, \<open>cut g k\<close> the two positions drawn in \<^verbatim>\<open>crossover\<close>, \<open>roll g k\<close> the value of
  \<^verbatim>\<open>random.random()\<close> and \<open>swap_pos g k\<close> the two positions drawn in \<^verbatim>\<open>mutate\<close>. The
  draws are values that the \<^verbatim>\<open>random\<close> module can return (indices in range).
\<close>

record 'c rng =
  shuffle :: "nat \<Rightarrow> 'c list \<Rightarrow> 'c list"
  tournament :: "nat \<Rightarrow> nat \<Rightarrow> nat \<Rightarrow> nat list"
  cut :: "nat \<Rightarrow> nat \<Rightarrow> nat \<times> nat"
  roll :: "nat \<Rightarrow> nat \<Rightarrow> real"
  swap_pos :: "nat \<Rightarrow> nat \<Rightarrow> nat \<times> nat"

text \<open>
  A child of \<^verbatim>\<open>crossover\<close> starts as \<^verbatim>\<open>[None] * size\<close>, so the entries of a tour are
  cities or Python's \<^verbatim>\<open>None\<close>: \<open>'c option\<close>. No edge has \<^verbatim>\<open>None\<close> as an endpoint.
\<close>

definition lift_edges :: "'c edges \<Rightarrow> 'c option edges" where
  "lift_edges edges = (\<lambda>(a, b).
     case a of None \<Rightarrow> None | Some x \<Rightarrow> (case b of None \<Rightarrow> None | Some y \<Rightarrow> edges (x, y)))"

definition tour_cost :: "'c edges \<Rightarrow> 'c option list \<Rightarrow> weight" where
  "tour_cost edges tour = calculate_path_cost (lift_edges edges) tour"

text \<open>
  \<^verbatim>\<open>fitness\<close>: \<^verbatim>\<open>1 / (cost + 1)\<close>, which is 0 for an infinite cost and raises
  \<^verbatim>\<open>ZeroDivisionError\<close> for the cost -1.
\<close>

definition fitness :: "'c edges \<Rightarrow> 'c option list \<Rightarrow> error + real" where
  "fitness edges tour =
     (case tour_cost edges tour of
        PInf \<Rightarrow> Inr 0
      | Fin cost \<Rightarrow> if cost + 1 = 0 then Inl ZeroDivisionError else Inr (1 / (cost + 1)))"

fun fitness_all :: "'c edges \<Rightarrow> 'c option list list \<Rightarrow> error + real list" where
  "fitness_all edges [] = Inr []"
| "fitness_all edges (tour # tours) =
     (case fitness edges tour of
        Inl e \<Rightarrow> Inl e
      | Inr f \<Rightarrow>
          (case fitness_all edges tours of
             Inl e \<Rightarrow> Inl e
           | Inr fs \<Rightarrow> Inr (f # fs)))"

text \<open>\<^verbatim>\<open>max(fitnesses)\<close> for a non-empty list.\<close>

definition list_max :: "real list \<Rightarrow> real" where
  "list_max xs = fold max (tl xs) (hd xs)"

text \<open>
  \<^verbatim>\<open>select_parent\<close>: \<^verbatim>\<open>max(tournament, key=...)\<close> returns the first entry of largest
  fitness among the sampled pairs.
\<close>

definition first_max_by_fitness :: "('a \<times> real) list \<Rightarrow> 'a \<times> real" where
  "first_max_by_fitness xs = fold (\<lambda>x best. if snd best < snd x then x else best) (tl xs) (hd xs)"

definition select_parent :: "'a list \<Rightarrow> real list \<Rightarrow> nat list \<Rightarrow> 'a" where
  "select_parent population fitnesses sample =
     fst (first_max_by_fitness (map (\<lambda>i. (population ! i, fitnesses ! i)) sample))"

text \<open>
  \<^verbatim>\<open>crossover\<close>: the slice of the first parent is copied, then the cities of the second
  parent, read from position \<^verbatim>\<open>end\<close> with wrap-around, fill the child from position
  \<^verbatim>\<open>end\<close> on, skipping cities the child already holds. \<^verbatim>\<open>size\<close> is written \<open>sz\<close>.
\<close>

definition fill_step :: "nat \<Rightarrow> 'a option \<Rightarrow> 'a option list \<times> nat \<Rightarrow> 'a option list \<times> nat" where
  "fill_step sz city st =
     (case st of (child, pointer) \<Rightarrow>
        if city \<in> set child then (child, pointer)
        else
          let pointer' = (if sz \<le> pointer then 0 else pointer)
          in (child[pointer' := city], pointer' + 1))"

definition crossover :: "'a option list \<Rightarrow> 'a option list \<Rightarrow> nat \<times> nat \<Rightarrow> 'a option list" where
  "crossover parent1 parent2 drawn =
     (let sz = length parent1;
          start = min (fst drawn) (snd drawn);
          end' = max (fst drawn) (snd drawn);
          child = replicate start None @ take (end' - start) (drop start parent1)
                    @ replicate (sz - end') None
      in fst (fold (fill_step sz) (drop end' parent2 @ take end' parent2) (child, end')))"

text \<open>\<^verbatim>\<open>mutate\<close>: with probability \<^verbatim>\<open>mutation_rate\<close> two positions are swapped.\<close>

definition mutate :: "real \<Rightarrow> 'a list \<Rightarrow> real \<Rightarrow> nat \<times> nat \<Rightarrow> 'a list" where
  "mutate mutation_rate tour r drawn =
     (if r < mutation_rate
      then (case drawn of (i, j) \<Rightarrow> (tour[i := tour ! j])[j := tour ! i])
      else tour)"

type_synonym 'c ga_state = "'c option list list \<times> 'c option list option \<times> real"

text \<open>
  One round of the loop \<^verbatim>\<open>for generation in range(generations)\<close>. The state is the
  population, \<^verbatim>\<open>best_tour\<close> (\<open>None\<close> for Python's \<^verbatim>\<open>None\<close>) and \<^verbatim>\<open>best_fitness\<close>.
  \<^verbatim>\<open>max\<close> of an empty list raises \<^verbatim>\<open>ValueError\<close>; \<^verbatim>\<open>best_tour.copy()\<close> raises
  \<^verbatim>\<open>AttributeError\<close> while \<^verbatim>\<open>best_tour\<close> is still \<^verbatim>\<open>None\<close>. The \<^verbatim>\<open>while\<close> loop adds
  \<^verbatim>\<open>population_size - 1\<close> children after the elite.
\<close>

definition generation_step ::
  "'c edges \<Rightarrow> 'c rng \<Rightarrow> nat \<Rightarrow> real \<Rightarrow> nat \<Rightarrow> 'c ga_state \<Rightarrow> error + 'c ga_state" where
  "generation_step edges rnd population_size mutation_rate generation st =
     (case st of (population, best_tour, best_fitness) \<Rightarrow>
        case fitness_all edges population of
          Inl e \<Rightarrow> Inl e
        | Inr fitnesses \<Rightarrow>
            if fitnesses = [] then Inl ValueError
            else
              let max_fitness_idx = index_of fitnesses (list_max fitnesses);
                  improved = best_fitness < fitnesses ! max_fitness_idx;
                  best_fitness' = (if improved then fitnesses ! max_fitness_idx else best_fitness);
                  best_tour' = (if improved then Some (population ! max_fitness_idx) else best_tour)
              in case best_tour' of
                   None \<Rightarrow> Inl AttributeError
                 | Some elite \<Rightarrow>
                     let children = map (\<lambda>k.
                           let parent1 = select_parent population fitnesses
                                           (tournament rnd generation k 0);
                               parent2 = select_parent population fitnesses
                                           (tournament rnd generation k 1);
                               child = crossover parent1 parent2 (cut rnd generation k)
                           in mutate mutation_rate child (roll rnd generation k)
                                (swap_pos rnd generation k))
                           [1..<population_size]
                     in Inr (elite # children, best_tour', best_fitness'))"

fun ga_loop ::
  "'c edges \<Rightarrow> 'c rng \<Rightarrow> nat \<Rightarrow> real \<Rightarrow> nat list \<Rightarrow> 'c ga_state \<Rightarrow> error + 'c ga_state" where
  "ga_loop edges rnd population_size mutation_rate [] st = Inr st"
| "ga_loop edges rnd population_size mutation_rate (generation # rest) st =
     (case generation_step edges rnd population_size mutation_rate generation st of
        Inl e \<Rightarrow> Inl e
      | Inr st' \<Rightarrow> ga_loop edges rnd population_size mutation_rate rest st')"

text \<open>
  \<^verbatim>\<open>genetic_algorithm\<close>. After the loop, \<^verbatim>\<open>calculate_path_cost(best_tour)\<close> takes
  \<^verbatim>\<open>len(best_tour)\<close>, which raises \<^verbatim>\<open>TypeError\<close> when \<^verbatim>\<open>best_tour\<close> is \<^verbatim>\<open>None\<close>.
\<close>

definition initial_population :: "'c rng \<Rightarrow> 'c list \<Rightarrow> nat \<Rightarrow> 'c option list list" where
  "initial_population rnd cities population_size =
     map (\<lambda>k. map Some (shuffle rnd k cities)) [0..<population_size]"

definition genetic_algorithm ::
  "'c list \<Rightarrow> 'c edges \<Rightarrow> 'c rng \<Rightarrow> nat \<Rightarrow> nat \<Rightarrow> real
     \<Rightarrow> error + 'c option list \<times> weight" where
  "genetic_algorithm cities edges rnd population_size generations mutation_rate =
     (if length cities < 2 then Inr ([], 0)
      else
        let population = initial_population rnd cities population_size
        in case ga_loop edges rnd population_size mutation_rate [0..<generations]
                  (population, None, 0) of
             Inl e \<Rightarrow> Inl e
           | Inr (final_population, best_tour, best_fitness) \<Rightarrow>
               (case best_tour of
                  None \<Rightarrow> Inl TypeError
                | Some tour \<Rightarrow> Inr (tour, tour_cost edges tour)))"

text \<open>A fixed table of draws, used as a concrete instance.\<close>

definition fixed_rng :: "nat rng" where
  "fixed_rng = \<lparr>shuffle = (\<lambda>k xs. rotate k xs), tournament = (\<lambda>g k w. [w, 0]),
      cut = (\<lambda>g k. (2, 0)), roll = (\<lambda>g k. 1), swap_pos = (\<lambda>g k. (0, 1))\<rparr>"


text \<open>
  With one generation the result is the first tour of largest fitness in the initial
  population, with its cost, provided that fitness is positive.
\<close>

lemma genetic_algorithm_one_generation:
  assumes "2 \<le> length cities"
    and "fitness_all edges (initial_population rnd cities population_size) = Inr fitnesses"
    and "fitnesses \<noteq> []"
    and "0 < fitnesses ! index_of fitnesses (list_max fitnesses)"
  shows "genetic_algorithm cities edges rnd population_size 1 mutation_rate
       = Inr (initial_population rnd cities population_size
                ! index_of fitnesses (list_max fitnesses),
              tour_cost edges (initial_population rnd cities population_size
                ! index_of fitnesses (list_max fitnesses)))"
  using assms by (simp add: genetic_algorithm_def generation_step_def Let_def)

text \<open>
  C6 fails for \<^verbatim>\<open>generations = 0\<close>: on two or more cities the loop body never runs,
  \<^verbatim>\<open>best_tour\<close> is still \<^verbatim>\<open>None\<close> and the call ends with \<^verbatim>\<open>TypeError\<close> instead of
  returning a tour of the initial population.
\<close>

theorem genetic_algorithm_zero_generations:
  assumes "2 \<le> length cities"
  shows "genetic_algorithm cities edges rnd population_size 0 mutation_rate = Inl TypeError"
  using assms by (simp add: genetic_algorithm_def)

theorem genetic_algorithm_zero_generations_witness:
  "genetic_algorithm [0, 1, 2] triangle_edges fixed_rng 3 0 (1 / 100) = Inl TypeError"
  using genetic_algorithm_zero_generations [of "[0, 1, 2]" triangle_edges fixed_rng 3 "1 / 100"]
  by simp

section \<open>Tour cost in double precision\<close>

text \<open>
  In the application every edge weight is a Python \<^verbatim>\<open>float\<close>: the Euclidean distance of
  two canvas points or a number typed by the user. \<^verbatim>\<open>calculate_path_cost\<close> adds the
  weights from left to right, and every addition of two doubles rounds the exact sum to
  the nearest double, ties to the even significand. This section models that addition. A
  finite weight \<open>Fin x\<close> stands for the double of value \<open>x\<close>.

  \<open>pow2 e\<close> is \<open>2\<close> to the power \<open>e\<close>, and \<open>exponent a\<close> is the binary exponent of a positive
  real: the integer \<open>e\<close> with \<open>pow2 e \<le> a < pow2 (e + 1)\<close>. \<open>bitlen\<close> is the number of binary
  digits of a positive integer.
\<close>

definition pow2 :: "int \<Rightarrow> real" where
  "pow2 e = (if 0 \<le> e then 2 ^ nat e else 1 / 2 ^ nat (- e))"

definition exponent :: "real \<Rightarrow> int" where
  "exponent a =
     (if 1 \<le> a then bitlen \<lfloor>a\<rfloor> - 1
      else
        let k = bitlen \<lfloor>1 / a\<rfloor> - 1
        in if a * 2 ^ nat k = 1 then - k else - k - 1)"

text \<open>Rounding of a non-negative real to the nearest integer, a tie going to the even one.\<close>

definition round_half_even :: "real \<Rightarrow> int" where
  "round_half_even m =
     (let f = \<lfloor>m\<rfloor>; d = m - of_int f
      in if d < 1 / 2 then f
         else if 1 / 2 < d then f + 1
         else if even f then f else f + 1)"

text \<open>
  \<open>fl_round x\<close> is the binary64 value nearest to \<open>x\<close>, with the exponent range unbounded
  above: the significand has 53 bits, so the spacing of the doubles around \<open>x\<close> is
  \<open>pow2 (e - 52)\<close> for the exponent \<open>e\<close> of \<open>x\<close>, and below the least normal exponent
  \<open>-1022\<close> the spacing stays that of the subnormal numbers.
\<close>

definition fl_round :: "real \<Rightarrow> real" where
  "fl_round x =
     (if x = 0 then 0
      else
        let a = \<bar>x\<bar>;
            e = max (exponent a) (- 1022);
            q = pow2 (e - 52)
        in sgn x * of_int (round_half_even (a / q)) * q)"

text \<open>
  The sum of two doubles: the rounded exact sum, or positive infinity when the rounded
  sum reaches \<open>2 ^ 1024\<close>; infinity plus anything that occurs here is infinity. Edge weights
  are distances, so the sums are not negative; negative infinity, NaN and the sign of
  zero do not arise and are not represented.
\<close>

fun fl_plus :: "weight \<Rightarrow> weight \<Rightarrow> weight" where
  "fl_plus (Fin a) (Fin b) = (let r = fl_round (a + b) in if 2 ^ 1024 \<le> r then PInf else Fin r)"
| "fl_plus (Fin a) PInf = PInf"
| "fl_plus PInf w = PInf"





subsection \<open>Sums of whole numbers are exact\<close>








lemma fl_plus_PInf [simp]: "fl_plus c PInf = PInf"
  by (cases c) simp_all








subsection \<open>Sums of tenths round\<close>






















end
